theory Spec2Isabelle
  imports Main "HOL-Library.Sublist"
begin

section \<open>Strings, errors and the interpreter's character tables\<close>

text \<open>
  A Python \<open>str\<close> is a sequence of Unicode code points. The module handles characters
  outside Latin-1 (the default marks hold U+2014, U+2026, U+201C, U+201D), so a character
  is modelled by its code point, a natural number, and a string by a list of them.
\<close>

type_synonym codepoint = nat
type_synonym ustring = "codepoint list"

definition ustr :: "string \<Rightarrow> ustring" where
  "ustr s = map of_char s"

datatype py_error = ValueError | IndexError | ReError | RecursionError

text \<open>
  The classes \<open>\s\<close> and \<open>\d\<close> of a \<open>str\<close> pattern, and the characters removed by
  \<open>str.strip\<close> and \<open>str.rstrip\<close>, are read from the interpreter's Unicode tables, which
  are not part of the repository and change with the interpreter's Unicode version.
  They are a parameter of every function that reads them: \<open>isspace\<close> is the table behind
  both \<open>\s\<close> and \<open>strip\<close>, \<open>isdecimal\<close> the table behind \<open>\d\<close>.
\<close>

record tables =
  isspace :: "codepoint \<Rightarrow> bool"
  isdecimal :: "codepoint \<Rightarrow> bool"

text \<open>
  The concrete tables used for the worked examples, those of CPython 3.11 (Unicode
  14.0): the characters for which \<open>str.isspace\<close> holds, and the decimal digits (category
  Nd), given by the first and last code point of each run of them. No general theorem
  below reads these definitions.
\<close>

definition py_isspace :: "codepoint \<Rightarrow> bool" where
  "py_isspace c \<longleftrightarrow>
     (9 \<le> c \<and> c \<le> 13) \<or> (28 \<le> c \<and> c \<le> 32) \<or> c = 133 \<or> c = 160 \<or> c = 5760 \<or>
     (8192 \<le> c \<and> c \<le> 8202) \<or> c = 8232 \<or> c = 8233 \<or> c = 8239 \<or> c = 8287 \<or> c = 12288"

definition decimal_ranges :: "(codepoint \<times> codepoint) list" where
  "decimal_ranges =
    [(48, 57), (1632, 1641), (1776, 1785), (1984, 1993), (2406, 2415), (2534, 2543),
     (2662, 2671), (2790, 2799), (2918, 2927), (3046, 3055), (3174, 3183), (3302, 3311),
     (3430, 3439), (3558, 3567), (3664, 3673), (3792, 3801), (3872, 3881), (4160, 4169),
     (4240, 4249), (6112, 6121), (6160, 6169), (6470, 6479), (6608, 6617), (6784, 6793),
     (6800, 6809), (6992, 7001), (7088, 7097), (7232, 7241), (7248, 7257), (42528, 42537),
     (43216, 43225), (43264, 43273), (43472, 43481), (43504, 43513), (43600, 43609),
     (44016, 44025), (65296, 65305), (66720, 66729), (68912, 68921), (69734, 69743),
     (69872, 69881), (69942, 69951), (70096, 70105), (70384, 70393), (70736, 70745),
     (70864, 70873), (71248, 71257), (71360, 71369), (71472, 71481), (71904, 71913),
     (72016, 72025), (72784, 72793), (73040, 73049), (73120, 73129), (92768, 92777),
     (92864, 92873), (93008, 93017), (120782, 120831), (123200, 123209), (123632, 123641),
     (125264, 125273), (130032, 130041)]"

definition py_isdecimal :: "codepoint \<Rightarrow> bool" where
  "py_isdecimal c = list_ex (\<lambda>(lo, hi). lo \<le> c \<and> c \<le> hi) decimal_ranges"

definition py_tables :: tables where
  "py_tables = \<lparr>isspace = py_isspace, isdecimal = py_isdecimal\<rparr>"

definition strip :: "tables \<Rightarrow> ustring \<Rightarrow> ustring" where
  "strip u s = rev (dropWhile (isspace u) (rev (dropWhile (isspace u) s)))"

definition rstrip :: "tables \<Rightarrow> ustring \<Rightarrow> ustring" where
  "rstrip u s = rev (dropWhile (isspace u) (rev s))"

section \<open>The regular expressions of the module\<close>

text \<open>
  The patterns of the module are built from character classes, sequence and the greedy
  repetitions \<open>*\<close> and \<open>+\<close>. \<open>re\<close> is a backtracking matcher: \<open>ms r s\<close> lists, in the order
  in which the matcher tries them, the rests of \<open>s\<close> after each way of matching \<open>r\<close> at
  the start of \<open>s\<close>. A greedy repetition tries one more iteration before it tries to
  stop, and an iteration that consumes nothing is not followed by another one. (Every
  repeated pattern of the module consumes a character, so that case never arises here.)
\<close>

datatype regex =
    Cls "codepoint \<Rightarrow> bool"
  | Seq regex regex
  | Star regex
  | Plus regex

function ms :: "regex \<Rightarrow> ustring \<Rightarrow> ustring list" where
  "ms (Cls p) s = (case s of [] \<Rightarrow> [] | c # cs \<Rightarrow> if p c then [cs] else [])"
| "ms (Seq a b) s = concat (map (ms b) (ms a s))"
| "ms (Star a) s =
     concat (map (\<lambda>t. if length t < length s then ms (Star a) t else []) (ms a s)) @ [s]"
| "ms (Plus a) s =
     concat (map (\<lambda>t. if length t < length s then ms (Star a) t else [t]) (ms a s))"
  by pat_completeness auto
termination
  by (relation "measures [\<lambda>(r, s). size r, \<lambda>(r, s). length s]") auto

text \<open>
  One attempt of the matcher at the start of \<open>s\<close>. With \<open>adv\<close> set (the position just
  after an empty match) an empty match is refused and the matcher backtracks.
\<close>

definition attempt :: "regex \<Rightarrow> bool \<Rightarrow> ustring \<Rightarrow> ustring option" where
  "attempt r adv s =
     (case filter (\<lambda>t. \<not> adv \<or> length t < length s) (ms r s) of
        [] \<Rightarrow> None
      | t # _ \<Rightarrow> Some t)"

text \<open>
  The scan shared by \<open>re.finditer\<close> and \<open>re.sub\<close>: from left to right, the first position
  where the pattern matches gives a match, and the scan goes on after it; a character
  at which no match starts is passed over. After an empty match the next attempt is
  made at the same place with \<open>adv\<close> set, as Python 3.7 and later do.
\<close>

datatype token = Skip codepoint | Hit ustring

function scan :: "regex \<Rightarrow> bool \<Rightarrow> ustring \<Rightarrow> token list" where
  "scan r adv s =
     (case attempt r adv s of
        None \<Rightarrow> (case s of [] \<Rightarrow> [] | c # cs \<Rightarrow> Skip c # scan r False cs)
      | Some t \<Rightarrow>
          Hit (take (length s - length t) s) #
            (if length t < length s then scan r False t
             else if adv then [] else scan r True s))"
  by pat_completeness auto
termination
  by (relation "measure (\<lambda>(r, adv, s). 2 * length s + (if adv then 0 else 1))") auto

text \<open>A match object: where the match starts, and \<open>group()\<close>, the text it matched.\<close>

record match =
  m_start :: nat
  m_group :: ustring

fun matches_from :: "nat \<Rightarrow> token list \<Rightarrow> match list" where
  "matches_from pos [] = []"
| "matches_from pos (Skip c # ts) = matches_from (Suc pos) ts"
| "matches_from pos (Hit g # ts) =
     \<lparr>m_start = pos, m_group = g\<rparr> # matches_from (pos + length g) ts"

definition finditer :: "regex \<Rightarrow> ustring \<Rightarrow> match list" where
  "finditer r s = matches_from 0 (scan r False s)"

text \<open>\<open>re.sub\<close> with a replacement string that holds no backslash: it is copied as it is.\<close>

fun sub_str :: "ustring \<Rightarrow> token list \<Rightarrow> ustring" where
  "sub_str repl [] = []"
| "sub_str repl (Skip c # ts) = c # sub_str repl ts"
| "sub_str repl (Hit g # ts) = repl @ sub_str repl ts"

definition re_sub_str :: "regex \<Rightarrow> ustring \<Rightarrow> ustring \<Rightarrow> ustring" where
  "re_sub_str r repl s = sub_str repl (scan r False s)"

text \<open>\<open>re.sub\<close> with a function: it is called on each match, and may raise.\<close>

fun sub_fn :: "(ustring \<Rightarrow> py_error + ustring) \<Rightarrow> token list \<Rightarrow> py_error + ustring" where
  "sub_fn f [] = Inr []"
| "sub_fn f (Skip c # ts) =
     (case sub_fn f ts of Inl e \<Rightarrow> Inl e | Inr out \<Rightarrow> Inr (c # out))"
| "sub_fn f (Hit g # ts) =
     (case f g of
        Inl e \<Rightarrow> Inl e
      | Inr x \<Rightarrow> (case sub_fn f ts of Inl e \<Rightarrow> Inl e | Inr out \<Rightarrow> Inr (x @ out)))"

definition re_sub_fn :: "regex \<Rightarrow> (ustring \<Rightarrow> py_error + ustring) \<Rightarrow> ustring \<Rightarrow> py_error + ustring" where
  "re_sub_fn r f s = sub_fn f (scan r False s)"

section \<open>Splitting and joining strings\<close>

text \<open>
  \<open>s.split(sep)\<close> cuts \<open>s\<close> at the occurrences of \<open>sep\<close>, found from left to right without
  overlap, and raises \<open>ValueError\<close> on an empty separator. \<open>sep.join(parts)\<close> puts \<open>sep\<close>
  between the parts.
\<close>

function split_from :: "ustring \<Rightarrow> ustring \<Rightarrow> ustring list" where
  "split_from sep s =
     (if sep \<noteq> [] \<and> prefix sep s then [] # split_from sep (drop (length sep) s)
      else (case s of
              [] \<Rightarrow> [[]]
            | c # cs \<Rightarrow> (case split_from sep cs of [] \<Rightarrow> [[c]] | p # ps \<Rightarrow> (c # p) # ps)))"
  by pat_completeness auto
termination
  by (relation "measure (\<lambda>(sep, s). length s)") (auto simp: prefix_def)

definition py_split :: "ustring \<Rightarrow> ustring \<Rightarrow> py_error + ustring list" where
  "py_split s sep = (if sep = [] then Inl ValueError else Inr (split_from sep s))"

fun py_join :: "ustring \<Rightarrow> ustring list \<Rightarrow> ustring" where
  "py_join sep [] = []"
| "py_join sep [p] = p"
| "py_join sep (p # q # ps) = p @ sep @ py_join sep (q # ps)"

definition py_index :: "'a list \<Rightarrow> nat \<Rightarrow> py_error + 'a" where
  "py_index xs i = (if i < length xs then Inr (xs ! i) else Inl IndexError)"

section \<open>The class Punctuation\<close>

text \<open>The values a caller may hand to the constructor; only a \<open>str\<close> is accepted.\<close>

datatype pyobj = PyStr ustring | PyNone | PyInt int | PyList "pyobj list"

text \<open>The argument of \<open>remove\<close>, \<open>preserve\<close> and \<open>restore\<close>: a string or a list of strings.\<close>

datatype pytext = Str ustring | Lines "ustring list"

text \<open>
  Modelled from the spec: \<open>str2list\<close> of \<open>phonemizer.utils\<close>, which is not among the
  sources. The spec says that a single line is treated as a one-element sequence; a
  list is returned as it is.
\<close>

fun str2list :: "pytext \<Rightarrow> ustring list" where
  "str2list (Str s) = [s]"
| "str2list (Lines ls) = ls"

text \<open>
  The object's two attributes. \<open>_marks\<close> is \<open>"".join(set(value))\<close>: each character of
  \<open>value\<close> once, in the unspecified order of a Python set. It is read only to build the
  character class of \<open>_marks_re\<close>, so the field holds the set of its characters.
\<close>

record punctuation =
  p_marks :: "codepoint set"
  p_marks_re :: regex

definition default_marks :: ustring where
  "default_marks =
     [59, 58, 44, 46, 33, 63, 161, 191, 8212, 8230, 34, 171, 187, 8220, 8221]"

text \<open>
  \<open>re.compile(fr"(\s*[{re.escape(self._marks)}]+\s*)+")\<close>. Every character of the
  class is escaped where the pattern syntax needs it, so the class holds exactly the
  marks. With no mark at all the pattern text is \<open>(\s*[]+\s*)+\<close>, whose character set is
  not closed, and \<open>re.compile\<close> raises \<open>re.error\<close>. \<open>mark_unit\<close> is the group
  \<open>\s*[...]+\s*\<close>, \<open>marks_re\<close> the whole pattern.
\<close>

definition mark_unit :: "tables \<Rightarrow> codepoint set \<Rightarrow> regex" where
  "mark_unit u M =
     Seq (Star (Cls (isspace u))) (Seq (Plus (Cls (\<lambda>c. c \<in> M))) (Star (Cls (isspace u))))"

definition marks_re :: "tables \<Rightarrow> codepoint set \<Rightarrow> regex" where
  "marks_re u M = Plus (mark_unit u M)"

definition compile_marks_re :: "tables \<Rightarrow> codepoint set \<Rightarrow> py_error + regex" where
  "compile_marks_re u M = (if M = {} then Inl ReError else Inr (marks_re u M))"

text \<open>The setter of the property \<open>marks\<close>, which \<open>__init__\<close> calls.\<close>

definition set_marks :: "tables \<Rightarrow> pyobj \<Rightarrow> py_error + punctuation" where
  "set_marks u v =
     (case v of
        PyStr w \<Rightarrow>
          (case compile_marks_re u (set w) of
             Inl e \<Rightarrow> Inl e
           | Inr r \<Rightarrow> Inr \<lparr>p_marks = set w, p_marks_re = r\<rparr>)
      | _ \<Rightarrow> Inl ValueError)"

subsection \<open>remove\<close>

definition remove_aux :: "tables \<Rightarrow> punctuation \<Rightarrow> ustring \<Rightarrow> ustring" where
  "remove_aux u self s = strip u (re_sub_str (p_marks_re self) [32] s)"

fun remove :: "tables \<Rightarrow> punctuation \<Rightarrow> pytext \<Rightarrow> pytext" where
  "remove u self (Str s) = Str (remove_aux u self s)"
| "remove u self (Lines ls) = Lines (map (remove_aux u self) ls)"

subsection \<open>preserve\<close>

datatype position = PosB | PosE | PosI | PosA

text \<open>The named tuple \<open>_MarkIndex\<close>; \<open>position\<close> is one of "B", "E", "I", "A".\<close>

record mark_index =
  index :: nat
  mark :: ustring
  position :: position

text \<open>
  The patterns \<open>\d[,]\d\<close> and \<open>\d[\.]\d\<close>, and the function that rebuilds a match \<open>x\<close> as
  \<open>x[0][0] + placeholder + x[0][2]\<close>. The placeholders are U+00A7 (the section sign) for the comma
  and U+0023 (the number sign) for the full stop.
\<close>

definition digit_sep :: "tables \<Rightarrow> codepoint \<Rightarrow> regex" where
  "digit_sep u c = Seq (Cls (isdecimal u)) (Seq (Cls (\<lambda>x. x = c)) (Cls (isdecimal u)))"

definition protect :: "codepoint \<Rightarrow> ustring \<Rightarrow> py_error + ustring" where
  "protect ph x =
     (case py_index x 0 of
        Inl e \<Rightarrow> Inl e
      | Inr a \<Rightarrow> (case py_index x 2 of Inl e \<Rightarrow> Inl e | Inr c \<Rightarrow> Inr ([a] @ [ph] @ [c])))"

definition escape :: "tables \<Rightarrow> ustring \<Rightarrow> py_error + ustring" where
  "escape u line =
     (case re_sub_fn (digit_sep u 44) (protect 167) line of
        Inl e \<Rightarrow> Inl e
      | Inr line1 \<Rightarrow> re_sub_fn (digit_sep u 46) (protect 35) line1)"

definition unescape :: "ustring \<Rightarrow> ustring" where
  "unescape element =
     re_sub_str (Cls (\<lambda>x. x = 35)) [46] (re_sub_str (Cls (\<lambda>x. x = 167)) [44] element)"

text \<open>
  The position of a match. Match objects compare by identity; two matches of one scan
  start at different places, so they are the same object exactly when the records are
  equal. \<open>first\<close> and \<open>final\<close> are \<open>matches[0]\<close> and \<open>matches[-1]\<close>.
\<close>

definition classify :: "match \<Rightarrow> match \<Rightarrow> ustring \<Rightarrow> match \<Rightarrow> position" where
  "classify first final line m =
     (if m = first \<and> prefix (m_group m) line then PosB
      else if m = final \<and> suffix (m_group m) line then PosE
      else PosI)"

text \<open>The loop that cuts the line at each mark in turn.\<close>

fun split_marks ::
  "mark_index list \<Rightarrow> ustring list \<Rightarrow> ustring \<Rightarrow> py_error + (ustring list \<times> ustring)" where
  "split_marks [] preserved_line line = Inr (preserved_line, line)"
| "split_marks (mk # mks) preserved_line line =
     (case py_split line (mark mk) of
        Inl e \<Rightarrow> Inl e
      | Inr [] \<Rightarrow> Inl IndexError
      | Inr (pre # rest) \<Rightarrow>
          split_marks mks (preserved_line @ [pre]) (py_join (mark mk) rest))"

text \<open>
  \<open>_preserve_line\<close>. The line it works on after the first two statements is the line
  with the digit protection applied. (The method also prints a fixed word on standard
  output, which is left out.)
\<close>

definition preserve_line ::
  "tables \<Rightarrow> punctuation \<Rightarrow> ustring \<Rightarrow> nat \<Rightarrow> py_error + (ustring list \<times> mark_index list)" where
  "preserve_line u self line0 num =
     (case escape u line0 of
        Inl e \<Rightarrow> Inl e
      | Inr line \<Rightarrow>
          (case finditer (p_marks_re self) line of
             [] \<Rightarrow> Inr ([unescape line], [])
           | m0 # others \<Rightarrow>
               if length (m0 # others) = 1 \<and> m_group m0 = line
               then Inr ([], [\<lparr>index = num, mark = line, position = PosA\<rparr>])
               else
                 let mks = map (\<lambda>m. \<lparr>index = num, mark = m_group m,
                                      position = classify m0 (last (m0 # others)) line m\<rparr>)
                               (m0 # others)
                 in (case split_marks mks [] line of
                       Inl e \<Rightarrow> Inl e
                     | Inr (preserved_line, rest) \<Rightarrow>
                         Inr (map unescape (preserved_line @ [rest]), mks))))"

fun preserve_loop ::
  "tables \<Rightarrow> punctuation \<Rightarrow> nat \<Rightarrow> ustring list \<Rightarrow> ustring list \<Rightarrow> mark_index list \<Rightarrow>
   py_error + (ustring list \<times> mark_index list)" where
  "preserve_loop u self num [] preserved_text preserved_marks =
     Inr (preserved_text, preserved_marks)"
| "preserve_loop u self num (line # rest) preserved_text preserved_marks =
     (case preserve_line u self line num of
        Inl e \<Rightarrow> Inl e
      | Inr (chunks, mks) \<Rightarrow>
          preserve_loop u self (Suc num) rest (preserved_text @ chunks) (preserved_marks @ mks))"

definition preserve ::
  "tables \<Rightarrow> punctuation \<Rightarrow> pytext \<Rightarrow> py_error + (ustring list \<times> mark_index list)" where
  "preserve u self t =
     (case preserve_loop u self 0 (str2list t) [] [] of
        Inl e \<Rightarrow> Inl e
      | Inr (preserved_text, preserved_marks) \<Rightarrow>
          Inr (filter (\<lambda>line. line \<noteq> []) preserved_text, preserved_marks))"

subsection \<open>restore\<close>

text \<open>
  \<open>_restore_current\<close> first overwrites \<open>text[0]\<close> with its right-trimmed value, in place;
  every branch then reads the list so changed. \<open>text[0]\<close> raises \<open>IndexError\<close> on an empty
  list, and \<open>marks[1:]\<close> of an empty list is empty.

  The two methods call each other, once for each chunk or mark that the walk consumes,
  and there is no loop: the walk needs a stack as deep as its input is long. They are
  given twice. \<open>restore_current\<close>, \<open>restore_aux\<close> and \<open>restore\<close> are what the walk returns when
  the interpreter lets it run to its end. \<open>restore_current_lim\<close>, \<open>restore_aux_lim\<close> and
  \<open>restore_lim\<close>, after them, are the same bodies with the interpreter's frames counted,
  and raise \<open>RecursionError\<close> where the interpreter does.
\<close>

function restore_current ::
    "tables \<Rightarrow> mark_index \<Rightarrow> ustring list \<Rightarrow> mark_index list \<Rightarrow> nat \<Rightarrow> py_error + ustring list"
  and restore_aux ::
    "tables \<Rightarrow> ustring list \<Rightarrow> mark_index list \<Rightarrow> nat \<Rightarrow> py_error + ustring list" where
  "restore_current u current [] mks num = Inl IndexError"
| "restore_current u current (t # ts) mks num =
     (let t0 = rstrip u t in
      case position current of
        PosB \<Rightarrow> restore_aux u ((mark current @ t0) # ts) (tl mks) num
      | PosE \<Rightarrow>
          (case restore_aux u ts (tl mks) (num + 1) of
             Inl e \<Rightarrow> Inl e
           | Inr out \<Rightarrow> Inr ((t0 @ mark current) # out))
      | PosA \<Rightarrow>
          (case restore_aux u (t0 # ts) (tl mks) (num + 1) of
             Inl e \<Rightarrow> Inl e
           | Inr out \<Rightarrow> Inr (mark current # out))
      | PosI \<Rightarrow>
          (case ts of
             [] \<Rightarrow> restore_aux u [t0 @ mark current] (tl mks) num
           | t1 # ts' \<Rightarrow> restore_aux u ((t0 @ mark current @ t1) # ts') (tl mks) num))"
| "restore_aux u txt [] num = Inr txt"
| "restore_aux u [] (m # mks) num = Inr [concat (map mark (m # mks))]"
| "restore_aux u (t # ts) (m # mks) num =
     (if index m = num then restore_current u m (t # ts) (m # mks) num
      else (case restore_aux u ts (m # mks) (num + 1) of
              Inl e \<Rightarrow> Inl e
            | Inr out \<Rightarrow> Inr (t # out)))"
  by pat_completeness auto
termination
  by (relation "measure (\<lambda>x. case x of
         Inl (u, current, txt, mks, num) \<Rightarrow>
           2 * (length txt + length mks) + (if mks = [] then 2 else 0)
       | Inr (u, txt, mks, num) \<Rightarrow> 2 * (length txt + length mks) + 1)")
     (auto split: if_splits simp: neq_Nil_conv)

definition restore :: "tables \<Rightarrow> pytext \<Rightarrow> mark_index list \<Rightarrow> py_error + ustring list" where
  "restore u t mks = restore_aux u (str2list t) mks 0"



section \<open>Notions used in the proofs\<close>

text \<open>
  A character that a mark unit may hold (whitespace or a mark), and the test for a mark
  in a string.
\<close>

definition wm :: "tables \<Rightarrow> codepoint set \<Rightarrow> codepoint \<Rightarrow> bool" where
  "wm u M c \<longleftrightarrow> isspace u c \<or> c \<in> M"

definition has_mark :: "codepoint set \<Rightarrow> ustring \<Rightarrow> bool" where
  "has_mark M s = list_ex (\<lambda>c. c \<in> M) s"

text \<open>The text of the line that a token of the scan stands for.\<close>

fun tok_text :: "token \<Rightarrow> ustring" where
  "tok_text (Skip c) = [c]"
| "tok_text (Hit g) = g"

text \<open>
  The texts of the matches of a scan, the pieces of text between them (one more than
  there are matches), and the line made of pieces and marks in turn.
\<close>

fun hits :: "token list \<Rightarrow> ustring list" where
  "hits [] = []"
| "hits (Skip c # ts) = hits ts"
| "hits (Hit g # ts) = g # hits ts"

fun gaps :: "token list \<Rightarrow> ustring list" where
  "gaps [] = [[]]"
| "gaps (Skip c # ts) = (case gaps ts of [] \<Rightarrow> [[c]] | p # ps \<Rightarrow> (c # p) # ps)"
| "gaps (Hit g # ts) = [] # gaps ts"

fun weave :: "ustring list \<Rightarrow> ustring list \<Rightarrow> ustring" where
  "weave (p # ps) (g # gs) = p @ g @ weave ps gs"
| "weave ps [] = concat ps"
| "weave [] gs = concat gs"

text \<open>
  The pieces of a line around its matches: from the place \<open>pos\<close> to the first match,
  between one match and the next, and after the last match.
\<close>

fun between :: "nat \<Rightarrow> match list \<Rightarrow> ustring \<Rightarrow> ustring list" where
  "between pos [] line = [drop pos line]"
| "between pos (m # rest) line =
     take (m_start m - pos) (drop pos line) #
       between (m_start m + length (m_group m)) rest line"

text \<open>
  What the digit protection computes: from left to right, a separator \<open>x\<close> between two
  decimal digits becomes the placeholder \<open>ph\<close>, and the scan goes on after the second
  digit.
\<close>

fun protected :: "tables \<Rightarrow> codepoint \<Rightarrow> codepoint \<Rightarrow> ustring \<Rightarrow> ustring" where
  "protected u x ph (a # b # d # rest) =
     (if b = x \<and> isdecimal u a \<and> isdecimal u d then a # ph # d # protected u x ph rest
      else a # protected u x ph (b # d # rest))"
| "protected u x ph [a, b] = [a, b]"
| "protected u x ph [a] = [a]"
| "protected u x ph [] = []"

text \<open>
  The spec's words for \<open>remove\<close>, before the trim: from left to right, every maximal run of
  whitespace and mark characters that holds a mark is replaced by one space; every other
  character is kept.
\<close>

function replace_mark_runs :: "tables \<Rightarrow> codepoint set \<Rightarrow> ustring \<Rightarrow> ustring" where
  "replace_mark_runs u M [] = []"
| "replace_mark_runs u M (c # cs) =
     (if has_mark M (takeWhile (wm u M) (c # cs))
      then 32 # replace_mark_runs u M (dropWhile (wm u M) (c # cs))
      else c # replace_mark_runs u M cs)"
  by pat_completeness auto
termination
  by (relation "measure (\<lambda>(u, M, s). length s)")
     (auto simp: has_mark_def list_ex_iff le_imp_less_Suc length_dropWhile_le split: if_splits)

text \<open>
  A string in which every mark is a space that stands alone: the character before it
  (\<open>prev\<close> tells whether the character before the string is whitespace or a mark) and
  the character after it are neither whitespace nor marks.
\<close>

fun isolated :: "tables \<Rightarrow> codepoint set \<Rightarrow> bool \<Rightarrow> ustring \<Rightarrow> bool" where
  "isolated u M prev [] = True"
| "isolated u M prev (c # cs) =
     ((c \<in> M \<longrightarrow> c = 32 \<and> \<not> prev \<and> (case cs of [] \<Rightarrow> True | d # _ \<Rightarrow> \<not> wm u M d)) \<and>
      isolated u M (wm u M c) cs)"

text \<open>The object that the setter builds from a non-empty string of marks.\<close>

definition punct :: "tables \<Rightarrow> ustring \<Rightarrow> punctuation" where
  "punct u v = \<lparr>p_marks = set v, p_marks_re = marks_re u (set v)\<rparr>"

declare ms.simps(3,4) [simp del]
declare scan.simps [simp del]
declare split_from.simps [simp del]

lemma ms_Star_Cls_Nil: "ms (Star (Cls p)) [] = [[]]"
  by (subst ms.simps(3)) simp

lemma ms_Star_Cls_Cons:
  "ms (Star (Cls p)) (c # cs) = (if p c then ms (Star (Cls p)) cs else []) @ [c # cs]"
  by (subst ms.simps(3)) simp

lemma ms_Plus_Cls_Nil: "ms (Plus (Cls p)) [] = []"
  by (subst ms.simps(4)) simp

lemma ms_Plus_Cls_Cons:
  "ms (Plus (Cls p)) (c # cs) = (if p c then ms (Star (Cls p)) cs else [])"
  by (subst ms.simps(4)) simp

lemma ms_Seq_Star_Cls_Nil: "ms (Seq (Star (Cls p)) b) [] = ms b []"
  by (simp add: ms_Star_Cls_Nil)

lemma ms_Seq_Star_Cls_Cons:
  "ms (Seq (Star (Cls p)) b) (c # cs) =
     (if p c then ms (Seq (Star (Cls p)) b) cs else []) @ ms b (c # cs)"
  by (simp add: ms_Star_Cls_Cons)

lemma ms_Seq_Plus_Cls_Nil: "ms (Seq (Plus (Cls p)) b) [] = []"
  by (simp add: ms_Plus_Cls_Nil)

lemma ms_Seq_Plus_Cls_Cons:
  "ms (Seq (Plus (Cls p)) b) (c # cs) = (if p c then ms (Seq (Star (Cls p)) b) cs else [])"
  by (simp add: ms_Plus_Cls_Cons)

lemma attempt_False: "attempt r False s = (case ms r s of [] \<Rightarrow> None | t # _ \<Rightarrow> Some t)"
  by (simp add: attempt_def)

lemma first_append:
  "(case xs @ ys of [] \<Rightarrow> None | t # _ \<Rightarrow> Some t) =
   (case xs of [] \<Rightarrow> (case ys of [] \<Rightarrow> None | t # _ \<Rightarrow> Some t) | t # _ \<Rightarrow> Some t)"
  by (cases xs) auto

lemma ms_suffix: "t \<in> set (ms r s) \<Longrightarrow> suffix t s"
proof (induction r s arbitrary: t rule: ms.induct)
  case (1 p s)
  then show ?case by (auto split: list.splits if_splits simp: suffix_Cons)
next
  case (2 a b s)
  then obtain t1 where "t1 \<in> set (ms a s)" "t \<in> set (ms b t1)" by auto
  with 2 show ?case by (meson suffix_order.trans)
next
  case (3 a s)
  from 3(3) consider "t = s" | t1 where "t1 \<in> set (ms a s)" "length t1 < length s" "t \<in> set (ms (Star a) t1)"
    by (subst (asm) ms.simps(3)) (auto split: if_splits)
  then show ?case
  proof cases
    case 1 then show ?thesis by simp
  next
    case 2
    with 3(1)[of t1] 3(2)[of t1 t] show ?thesis by (meson suffix_order.trans)
  qed
next
  case (4 a s)
  from 4(3) consider t1 where "t1 \<in> set (ms a s)" "length t1 < length s" "t \<in> set (ms (Star a) t1)"
    | "t \<in> set (ms a s)"
    by (subst (asm) ms.simps(4)) (auto split: if_splits)
  then show ?case
  proof cases
    case 1
    with 4(1)[of t1] 4(2)[of t1 t] show ?thesis by (meson suffix_order.trans)
  next
    case 2 with 4(1) show ?thesis by simp
  qed
qed


lemma attempt_Seq_Star_Star:
  "attempt (Seq (Star (Cls q)) (Star (Cls p))) False s = Some (dropWhile p (dropWhile q s))"
proof -
  have a: "attempt (Star (Cls p)) False t = Some (dropWhile p t)" for t
    by (induction t) (auto simp: attempt_False ms_Star_Cls_Nil ms_Star_Cls_Cons first_append split: list.splits)
  show ?thesis
  proof (induction s)
    case Nil
    then show ?case using a[of "[]"] by (simp add: attempt_False ms_Seq_Star_Cls_Nil del: ms.simps)
  next
    case (Cons c cs)
    then show ?case using a[of "c # cs"]
      by (auto simp: attempt_False ms_Seq_Star_Cls_Cons first_append simp del: ms.simps split: list.splits)
  qed
qed

lemma attempt_unit_tail:
  "attempt (Seq (Plus (Cls q)) (Star (Cls p))) False s =
     (case s of [] \<Rightarrow> None | c # cs \<Rightarrow> if q c then Some (dropWhile p (dropWhile q cs)) else None)"
  using attempt_Seq_Star_Star[of q p "tl s"]
  by (cases s) (auto simp: attempt_False ms_Seq_Plus_Cls_Nil ms_Seq_Plus_Cls_Cons simp del: ms.simps)

lemma attempt_mark_unit_Nil: "attempt (mark_unit u M) False [] = None"
  by (simp add: mark_unit_def attempt_False ms_Seq_Star_Cls_Nil ms_Seq_Plus_Cls_Nil del: ms.simps)

lemma attempt_mark_unit_Cons:
  "attempt (mark_unit u M) False (c # cs) =
     (case (if isspace u c then attempt (mark_unit u M) False cs else None) of
        Some t \<Rightarrow> Some t
      | None \<Rightarrow> if c \<in> M then Some (dropWhile (isspace u) (dropWhile (\<lambda>x. x \<in> M) cs)) else None)"
  using attempt_unit_tail[of "\<lambda>x. x \<in> M" "isspace u" "c # cs"]
  by (auto simp: mark_unit_def attempt_False ms_Seq_Star_Cls_Cons first_append simp del: ms.simps
      split: list.splits)


lemma has_mark_iff: "has_mark M s \<longleftrightarrow> (\<exists>c\<in>set s. c \<in> M)"
  by (simp add: has_mark_def list_ex_iff)

lemma unit_matches_iff:
  "attempt (mark_unit u M) False s \<noteq> None \<longleftrightarrow> has_mark M (takeWhile (wm u M) s)"
proof (induction s)
  case Nil
  then show ?case by (simp add: attempt_mark_unit_Nil has_mark_iff)
next
  case (Cons c cs)
  then show ?case
    by (auto simp: attempt_mark_unit_Cons has_mark_iff wm_def split: option.splits)
qed

lemma dropWhile_weaken:
  "(\<And>x. p x \<Longrightarrow> q x) \<Longrightarrow> dropWhile q (dropWhile p xs) = dropWhile q xs"
  by (induction xs) auto

lemma dropWhile_hd: "dropWhile p xs = y # ys \<Longrightarrow> \<not> p y"
  by (metis dropWhile_eq_Cons_conv)

lemma unit_first:
  "attempt (mark_unit u M) False s = Some r \<Longrightarrow>
     length r < length s \<and> dropWhile (wm u M) r = dropWhile (wm u M) s \<and>
     (\<not> has_mark M (takeWhile (wm u M) r) \<longrightarrow> r = dropWhile (wm u M) s)"
proof (induction s arbitrary: r)
  case Nil
  then show ?case by (simp add: attempt_mark_unit_Nil)
next
  case (Cons c cs)
  show ?case
  proof (cases "isspace u c \<and> attempt (mark_unit u M) False cs \<noteq> None")
    case True
    with Cons.prems have "attempt (mark_unit u M) False cs = Some r"
      by (auto simp: attempt_mark_unit_Cons)
    from Cons.IH[OF this] True show ?thesis by (auto simp: wm_def)
  next
    case False
    with Cons.prems have c: "c \<in> M" and r: "r = dropWhile (isspace u) (dropWhile (\<lambda>x. x \<in> M) cs)"
      by (auto simp: attempt_mark_unit_Cons split: if_splits option.splits)
    have 1: "length r < length (c # cs)"
    proof -
      have "length r \<le> length (dropWhile (\<lambda>x. x \<in> M) cs)"
        unfolding r by (rule length_dropWhile_le)
      also have "\<dots> \<le> length cs" by (rule length_dropWhile_le)
      finally show ?thesis by simp
    qed
    have 2: "dropWhile (wm u M) r = dropWhile (wm u M) (c # cs)"
      using c by (simp add: r dropWhile_weaken wm_def)
    have 3: "r = dropWhile (wm u M) r" if "\<not> has_mark M (takeWhile (wm u M) r)"
    proof (cases r)
      case Nil then show ?thesis by simp
    next
      case (Cons y ys)
      then have "\<not> isspace u y" using r by (metis dropWhile_hd)
      moreover have "y \<notin> M" using that Cons by (auto simp: has_mark_iff wm_def split: if_splits)
      ultimately show ?thesis using Cons by (simp add: wm_def)
    qed
    from 1 2 3 show ?thesis by metis
  qed
qed

lemma attempt_Star_None: "attempt a False s = None \<Longrightarrow> attempt (Star a) False s = Some s"
  by (subst attempt_False, subst ms.simps(3)) (auto simp: attempt_False split: list.splits)

lemma attempt_Star_ne: "attempt (Star a) False s \<noteq> None"
  by (subst attempt_False, subst ms.simps(3)) (auto split: list.splits)

lemma attempt_Star_Some:
  "attempt a False s = Some r \<Longrightarrow> length r < length s \<Longrightarrow>
     attempt (Star a) False s = attempt (Star a) False r"
  using attempt_Star_ne[of a r]
  by (subst attempt_False, subst ms.simps(3))
     (auto simp: attempt_False first_append split: list.splits)

lemma attempt_Plus_None: "attempt a False s = None \<Longrightarrow> attempt (Plus a) False s = None"
  by (subst attempt_False, subst ms.simps(4)) (auto simp: attempt_False split: list.splits)

lemma attempt_Plus_Some:
  "attempt a False s = Some r \<Longrightarrow> length r < length s \<Longrightarrow>
     attempt (Plus a) False s = attempt (Star a) False r"
  using attempt_Star_ne[of a r]
  by (subst attempt_False, subst ms.simps(4))
     (auto simp: attempt_False first_append split: list.splits)

lemma attempt_Star_unit:
  "attempt (Star (mark_unit u M)) False s =
     Some (if has_mark M (takeWhile (wm u M) s) then dropWhile (wm u M) s else s)"
proof (induction "length s" arbitrary: s rule: less_induct)
  case less
  show ?case
  proof (cases "attempt (mark_unit u M) False s")
    case None
    then have "\<not> has_mark M (takeWhile (wm u M) s)" using unit_matches_iff[of u M s] by simp
    with None show ?thesis by (simp add: attempt_Star_None)
  next
    case (Some r)
    then have hm: "has_mark M (takeWhile (wm u M) s)" using unit_matches_iff[of u M s] by simp
    from unit_first[OF Some] have r: "length r < length s"
      "dropWhile (wm u M) r = dropWhile (wm u M) s"
      "\<not> has_mark M (takeWhile (wm u M) r) \<longrightarrow> r = dropWhile (wm u M) s" by auto
    have "attempt (Star (mark_unit u M)) False s = attempt (Star (mark_unit u M)) False r"
      by (rule attempt_Star_Some[OF Some r(1)])
    also have "\<dots> = Some (if has_mark M (takeWhile (wm u M) r) then dropWhile (wm u M) r else r)"
      by (rule less[OF r(1)])
    also have "\<dots> = Some (dropWhile (wm u M) s)" using r by auto
    finally show ?thesis using hm by simp
  qed
qed

lemma attempt_marks_re:
  "attempt (marks_re u M) False s =
     (if has_mark M (takeWhile (wm u M) s) then Some (dropWhile (wm u M) s) else None)"
proof (cases "attempt (mark_unit u M) False s")
  case None
  then have "\<not> has_mark M (takeWhile (wm u M) s)" using unit_matches_iff[of u M s] by simp
  with None show ?thesis by (simp add: marks_re_def attempt_Plus_None)
next
  case (Some r)
  then have hm: "has_mark M (takeWhile (wm u M) s)" using unit_matches_iff[of u M s] by simp
  from unit_first[OF Some] have r: "length r < length s"
    "dropWhile (wm u M) r = dropWhile (wm u M) s"
    "\<not> has_mark M (takeWhile (wm u M) r) \<longrightarrow> r = dropWhile (wm u M) s" by auto
  have "attempt (marks_re u M) False s = attempt (Star (mark_unit u M)) False r"
    unfolding marks_re_def by (rule attempt_Plus_Some[OF Some r(1)])
  also have "\<dots> = Some (dropWhile (wm u M) s)" using r by (auto simp: attempt_Star_unit)
  finally show ?thesis using hm by simp
qed


lemma take_length_dropWhile: "take (length s - length (dropWhile p s)) s = takeWhile p s"
proof -
  have "length s - length (dropWhile p s) = length (takeWhile p s)"
    by (metis add_diff_cancel_right' length_append takeWhile_dropWhile_id)
  then show ?thesis
    by (metis append_eq_conv_conj takeWhile_dropWhile_id)
qed

lemma scan_marks_re_Nil: "scan (marks_re u M) False [] = []"
  by (subst scan.simps) (simp add: attempt_marks_re has_mark_iff)

lemma scan_marks_re_Cons:
  "scan (marks_re u M) False (c # cs) =
     (if has_mark M (takeWhile (wm u M) (c # cs))
      then Hit (takeWhile (wm u M) (c # cs)) # scan (marks_re u M) False (dropWhile (wm u M) (c # cs))
      else Skip c # scan (marks_re u M) False cs)"
proof (cases "has_mark M (takeWhile (wm u M) (c # cs))")
  case True
  then have "wm u M c" by (auto simp: has_mark_iff split: if_splits)
  then have "length (dropWhile (wm u M) (c # cs)) < length (c # cs)"
    by (simp add: le_imp_less_Suc length_dropWhile_le)
  with True show ?thesis
    by (subst scan.simps) (simp only: attempt_marks_re take_length_dropWhile if_True option.case)
next
  case False
  then show ?thesis
    by (subst scan.simps) (simp only: attempt_marks_re if_False option.case list.case)
qed

lemma attempt_Cls:
  "attempt (Cls p) False s = (case s of [] \<Rightarrow> None | c # cs \<Rightarrow> if p c then Some cs else None)"
  by (auto simp: attempt_False split: list.splits)

lemma scan_Cls: "scan (Cls p) False s = map (\<lambda>c. if p c then Hit [c] else Skip c) s"
proof (induction s)
  case Nil
  then show ?case by (subst scan.simps) (simp add: attempt_Cls)
next
  case (Cons c cs)
  then show ?case by (subst scan.simps) (simp add: attempt_Cls)
qed

lemma attempt_digit_sep:
  "attempt (digit_sep u x) False s =
     (case s of
        a # b # d # rest \<Rightarrow> if isdecimal u a \<and> b = x \<and> isdecimal u d then Some rest else None
      | _ \<Rightarrow> None)"
  by (auto simp: attempt_False digit_sep_def split: list.splits)

lemma scan_digit_sep_Nil: "scan (digit_sep u x) False [] = []"
  by (subst scan.simps) (simp add: attempt_digit_sep)

lemma scan_digit_sep_1: "scan (digit_sep u x) False [a] = [Skip a]"
  by (subst scan.simps) (simp add: attempt_digit_sep scan_digit_sep_Nil)

lemma scan_digit_sep_2: "scan (digit_sep u x) False [a, b] = [Skip a, Skip b]"
  by (subst scan.simps) (simp add: attempt_digit_sep scan_digit_sep_1)

lemma scan_digit_sep_3:
  "scan (digit_sep u x) False (a # b # d # rest) =
     (if b = x \<and> isdecimal u a \<and> isdecimal u d
      then Hit [a, b, d] # scan (digit_sep u x) False rest
      else Skip a # scan (digit_sep u x) False (b # d # rest))"
  by (subst scan.simps) (auto simp: attempt_digit_sep)



lemma split_from_Nil: "split_from sep [] = [[]]"
  by (subst split_from.simps) auto

lemma split_from_Cons:
  "split_from sep (c # cs) =
     (if sep \<noteq> [] \<and> prefix sep (c # cs) then [] # split_from sep (drop (length sep) (c # cs))
      else (case split_from sep cs of [] \<Rightarrow> [[c]] | p # ps \<Rightarrow> (c # p) # ps))"
  by (subst split_from.simps) simp

lemma set_marks_PyStr: "v \<noteq> [] \<Longrightarrow> set_marks u (PyStr v) = Inr (punct u v)"
  by (simp add: set_marks_def compile_marks_re_def punct_def)

lemma py_isdecimal_low: "c < 1632 \<Longrightarrow> py_isdecimal c \<longleftrightarrow> 48 \<le> c \<and> c \<le> 57"
  by (auto simp: py_isdecimal_def decimal_ranges_def)

lemmas eval_simps = preserve_def preserve_line_def escape_def re_sub_fn_def
  scan_digit_sep_Nil scan_digit_sep_1 scan_digit_sep_2 scan_digit_sep_3 protect_def py_index_def
  finditer_def scan_marks_re_Nil scan_marks_re_Cons has_mark_def wm_def py_tables_def
  py_isspace_def py_isdecimal_low default_marks_def unescape_def re_sub_str_def scan_Cls
  classify_def py_split_def split_from_Nil split_from_Cons punct_def ustr_def restore_def
  remove_aux_def strip_def rstrip_def suffix_to_prefix

section \<open>The walk of restore\<close>

lemma restore_total:
  "tx \<noteq> [] \<longrightarrow> (\<exists>out. restore_current u cur tx mks num = Inr out)"
  "\<exists>out. restore_aux u tx' mks' num' = Inr out"
proof (induction u cur tx mks num and u tx' mks' num' rule: restore_current_restore_aux.induct)
  case (1 u current mks num)
  then show ?case by simp
next
  case (2 u current t ts mks num)
  show ?case
  proof (cases "position current")
    case PosB
    with 2(1)[OF refl PosB] show ?thesis by (auto simp: Let_def)
  next
    case PosE
    with 2(2)[OF refl PosE] show ?thesis by (auto simp: Let_def)
  next
    case PosI
    show ?thesis
    proof (cases ts)
      case Nil
      with 2(3)[OF refl PosI Nil] PosI show ?thesis by (auto simp: Let_def)
    next
      case (Cons t1 ts')
      with 2(4)[OF refl PosI Cons] PosI show ?thesis by (auto simp: Let_def)
    qed
  next
    case PosA
    with 2(5)[OF refl PosA] show ?thesis by (auto simp: Let_def)
  qed
next
  case (3 u tx num)
  then show ?case by simp
next
  case (4 u m mks num)
  then show ?case by simp
next
  case (5 u t ts m mks num)
  show ?case
  proof (cases "index m = num")
    case True
    with 5(1) show ?thesis by simp
  next
    case False
    with 5(2) show ?thesis by auto
  qed
qed

lemma rstrip_idem: "rstrip u (rstrip u t) = rstrip u t"
  by (simp add: rstrip_def)

lemma restore_skip:
  "index m \<noteq> num \<Longrightarrow>
     \<exists>out. restore_aux u ts (m # mks) (num + 1) = Inr out \<and>
           restore_aux u (t # ts) (m # mks) num = Inr (t # out)"
  using restore_total(2)[of u ts "m # mks" "num + 1"] by auto

lemma restore_alone:
  "index m = num \<Longrightarrow> position m = PosA \<Longrightarrow>
     \<exists>out. restore_aux u (rstrip u t # ts) mks (num + 1) = Inr out \<and>
           restore_aux u (t # ts) (m # mks) num = Inr (mark m # out)"
  using restore_total(2)[of u "rstrip u t # ts" mks "num + 1"] by (auto simp: Let_def)

lemma restore_current_trims_first:
  "restore_current u cur (t # ts) mks num = restore_current u cur (rstrip u t # ts) mks num"
  by (simp add: Let_def rstrip_idem)

lemma restore_example:
  "restore py_tables (Lines [ustr ''NO MARKS HERE'', ustr ''WOW''])
     [\<lparr>index = 1, mark = ustr ''!'', position = PosE\<rparr>] =
   Inr [ustr ''NO MARKS HERE'', ustr ''WOW!'']"
  by (simp add: eval_simps)

lemma preserve_example_two_lines:
  "preserve py_tables (punct py_tables default_marks)
     (Lines [ustr ''no marks here'', ustr ''wow!'']) =
   Inr ([ustr ''no marks here'', ustr ''wow''],
        [\<lparr>index = 1, mark = ustr ''!'', position = PosE\<rparr>])"
  by (simp add: eval_simps)

lemma preserve_example_dots:
  "preserve py_tables (punct py_tables default_marks) (Lines [ustr ''...'']) =
   Inr ([], [\<lparr>index = 0, mark = ustr ''...'', position = PosA\<rparr>])"
  by (simp add: eval_simps)

lemma restore_example_dots:
  "restore py_tables (Lines []) [\<lparr>index = 0, mark = ustr ''...'', position = PosA\<rparr>] =
   Inr [ustr ''...'']"
  by (simp add: eval_simps)

lemma restore_example_alone:
  "restore py_tables (Lines [ustr ''hello  '', ustr ''you''])
     [\<lparr>index = 0, mark = ustr ''!!'', position = PosA\<rparr>] =
   Inr [ustr ''!!'', ustr ''hello'', ustr ''you'']"
  by (simp add: eval_simps)

text \<open>
  C3. In \<open>restore\<close>, when the index of the next mark differs from the counter \<open>num\<close>, the
  current chunk is emitted unchanged as one output line, the counter advances by one and
  the mark stays pending: the rest of the output is the walk over the remaining chunks
  with the same marks. In particular the two lines "no marks here", "wow!" are preserved
  as the chunks "no marks here", "wow" and one mark "!" of index 1 and position E, and
  restoring the chunks "NO MARKS HERE", "WOW" with that mark gives "NO MARKS HERE",
  "WOW!".
\<close>

theorem restore_keeps_chunk_without_mark:
  "(index m \<noteq> num \<longrightarrow>
      (\<exists>out. restore_aux u ts (m # mks) (num + 1) = Inr out \<and>
             restore_aux u (t # ts) (m # mks) num = Inr (t # out))) \<and>
   preserve py_tables (punct py_tables default_marks)
     (Lines [ustr ''no marks here'', ustr ''wow!'']) =
     Inr ([ustr ''no marks here'', ustr ''wow''],
          [\<lparr>index = 1, mark = ustr ''!'', position = PosE\<rparr>]) \<and>
   restore py_tables (Lines [ustr ''NO MARKS HERE'', ustr ''WOW''])
     [\<lparr>index = 1, mark = ustr ''!'', position = PosE\<rparr>] =
     Inr [ustr ''NO MARKS HERE'', ustr ''WOW!'']"
  using restore_skip[of m num u ts mks t] restore_example preserve_example_two_lines
  by blast

theorem restore_keeps_chunk_without_mark_witness:
  "index \<lparr>index = 1, mark = ustr ''!'', position = PosE\<rparr> \<noteq> (0::nat) \<and>
   restore_aux py_tables [ustr ''NO MARKS HERE'', ustr ''WOW'']
     [\<lparr>index = 1, mark = ustr ''!'', position = PosE\<rparr>] 0 =
   Inr [ustr ''NO MARKS HERE'', ustr ''WOW!'']"
  using restore_keeps_chunk_without_mark
    [of "\<lparr>index = 1, mark = ustr ''!'', position = PosE\<rparr>" 0 py_tables "[ustr ''WOW'']" "[]"
        "ustr ''NO MARKS HERE''"]
  by (simp add: eval_simps)

text \<open>
  C6. In \<open>restore\<close>, when no mark is left the remaining chunks are the remaining output
  lines, unchanged; when no chunk is left but marks remain, the output is one line, the
  texts of the remaining marks put together with nothing between them. In particular
  \<open>preserve\<close> of the line "..." gives no chunk and one mark, and \<open>restore\<close> of no chunk with
  that mark gives the single line "...".
\<close>

theorem restore_exhausted:
  "restore_aux u txt [] num = Inr txt \<and>
   (mks \<noteq> [] \<longrightarrow> restore_aux u [] mks num = Inr [concat (map mark mks)]) \<and>
   preserve py_tables (punct py_tables default_marks) (Lines [ustr ''...'']) =
     Inr ([], [\<lparr>index = 0, mark = ustr ''...'', position = PosA\<rparr>]) \<and>
   restore py_tables (Lines []) [\<lparr>index = 0, mark = ustr ''...'', position = PosA\<rparr>] =
     Inr [ustr ''...'']"
  using preserve_example_dots restore_example_dots by (cases mks) simp_all

theorem restore_exhausted_witness:
  "[\<lparr>index = 0, mark = ustr ''?'', position = PosE\<rparr>,
    \<lparr>index = 2, mark = ustr ''! '', position = PosI\<rparr>] \<noteq> [] \<and>
   restore_aux py_tables []
     [\<lparr>index = 0, mark = ustr ''?'', position = PosE\<rparr>,
      \<lparr>index = 2, mark = ustr ''! '', position = PosI\<rparr>] 5 = Inr [ustr ''?! '']"
  using restore_exhausted
    [of py_tables "[]" 5 "[\<lparr>index = 0, mark = ustr ''?'', position = PosE\<rparr>,
                           \<lparr>index = 2, mark = ustr ''! '', position = PosI\<rparr>]"]
  by (simp add: ustr_def)

text \<open>
  C10. In \<open>restore\<close>, when the next mark has the index of the counter and the position A
  while a chunk remains, the mark text is emitted as a line and the walk goes on with
  the same chunks, the first of them right-trimmed although no mark is attached to it;
  with no further mark that trimmed chunk is the next output line. The right-trim is
  done before the branch on the position: \<open>_restore_current\<close> gives the same result on a
  first chunk and on its right-trimmed form, whatever the position.
\<close>

theorem restore_alone_trims_next_chunk:
  "(index m = num \<and> position m = PosA \<longrightarrow>
      (\<exists>out. restore_aux u (rstrip u t # ts) mks (num + 1) = Inr out \<and>
             restore_aux u (t # ts) (m # mks) num = Inr (mark m # out))) \<and>
   (index m = num \<and> position m = PosA \<longrightarrow>
      restore_aux u (t # ts) [m] num = Inr (mark m # rstrip u t # ts)) \<and>
   restore_current u cur (t # ts) mks' num' =
     restore_current u cur (rstrip u t # ts) mks' num'"
  using restore_alone[of m num u t ts mks] restore_current_trims_first[of u cur t ts mks' num']
  by (auto simp: Let_def)

theorem restore_alone_trims_next_chunk_witness:
  "index \<lparr>index = 0, mark = ustr ''!!'', position = PosA\<rparr> = (0::nat) \<and>
   position \<lparr>index = 0, mark = ustr ''!!'', position = PosA\<rparr> = PosA \<and>
   restore_aux py_tables [ustr ''hello  '', ustr ''you'']
     [\<lparr>index = 0, mark = ustr ''!!'', position = PosA\<rparr>] 0 =
   Inr [ustr ''!!'', ustr ''hello'', ustr ''you'']"
  using restore_alone_trims_next_chunk
    [of "\<lparr>index = 0, mark = ustr ''!!'', position = PosA\<rparr>" 0 py_tables "ustr ''hello  ''"
        "[ustr ''you'']" "[]"]
  by (simp add: eval_simps)

section \<open>The tokens of a scan for marks\<close>

lemma scan_marks_re_induct [case_names Nil Hit Skip]:
  assumes "P []"
    and "\<And>c cs. has_mark M (takeWhile (wm u M) (c # cs)) \<Longrightarrow>
            P (dropWhile (wm u M) (c # cs)) \<Longrightarrow> P (c # cs)"
    and "\<And>c cs. \<not> has_mark M (takeWhile (wm u M) (c # cs)) \<Longrightarrow> P cs \<Longrightarrow> P (c # cs)"
  shows "P s"
proof (induction "length s" arbitrary: s rule: less_induct)
  case less
  show ?case
  proof (cases s)
    case Nil
    then show ?thesis using assms(1) by simp
  next
    case (Cons c cs)
    show ?thesis
    proof (cases "has_mark M (takeWhile (wm u M) (c # cs))")
      case True
      then have "wm u M c" by (auto simp: has_mark_iff split: if_splits)
      then have "length (dropWhile (wm u M) (c # cs)) < length s"
        using Cons by (simp add: le_imp_less_Suc length_dropWhile_le)
      from less[OF this] assms(2)[OF True] Cons show ?thesis by simp
    next
      case False
      from less[of cs] assms(3)[OF False] Cons show ?thesis by simp
    qed
  qed
qed

lemma scan_marks_text: "concat (map tok_text (scan (marks_re u M) False s)) = s"
  by (induction s rule: scan_marks_re_induct[of _ M u])
     (simp_all add: scan_marks_re_Nil scan_marks_re_Cons del: takeWhile.simps dropWhile.simps)

lemma scan_marks_Skip: "Skip c \<in> set (scan (marks_re u M) False s) \<Longrightarrow> c \<notin> M"
proof (induction s rule: scan_marks_re_induct[of _ M u])
  case Nil
  then show ?case by (simp add: scan_marks_re_Nil)
next
  case (Hit c cs)
  then show ?case by (simp add: scan_marks_re_Cons del: takeWhile.simps dropWhile.simps)
next
  case (Skip d cs)
  then show ?case
    by (auto simp: scan_marks_re_Cons has_mark_iff wm_def split: if_splits)
qed

lemma scan_marks_Hit:
  "Hit g \<in> set (scan (marks_re u M) False s) \<Longrightarrow> has_mark M g \<and> (\<forall>x\<in>set g. wm u M x)"
proof (induction s rule: scan_marks_re_induct[of _ M u])
  case Nil
  then show ?case by (simp add: scan_marks_re_Nil)
next
  case (Hit c cs)
  then show ?case
    by (auto simp: scan_marks_re_Cons simp del: takeWhile.simps dropWhile.simps dest: set_takeWhileD)
next
  case (Skip d cs)
  then show ?case by (simp add: scan_marks_re_Cons del: takeWhile.simps dropWhile.simps)
qed

lemma scan_marks_Hit_ne: "Hit g \<in> set (scan (marks_re u M) False s) \<Longrightarrow> g \<noteq> []"
  using scan_marks_Hit[of g u M s] by (auto simp: has_mark_iff)

lemma scan_marks_no_mark:
  "\<not> has_mark M s \<Longrightarrow> scan (marks_re u M) False s = map Skip s"
proof (induction s)
  case Nil
  then show ?case by (simp add: scan_marks_re_Nil)
next
  case (Cons c cs)
  then have "\<not> has_mark M (takeWhile (wm u M) (c # cs))"
    by (auto simp: has_mark_iff dest: set_takeWhileD split: if_splits)
  with Cons show ?case
    by (simp add: scan_marks_re_Cons has_mark_iff del: takeWhile.simps)
qed

section \<open>Matches and their tokens\<close>

lemma matches_from_groups:
  "map m_group (matches_from pos toks) = concat (map (\<lambda>t. case t of Skip c \<Rightarrow> [] | Hit g \<Rightarrow> [g]) toks)"
  by (induction pos toks rule: matches_from.induct) simp_all

lemma matches_from_Hit: "m \<in> set (matches_from pos toks) \<Longrightarrow> Hit (m_group m) \<in> set toks"
  by (induction pos toks rule: matches_from.induct) auto

lemma matches_from_map_Skip: "matches_from pos (map Skip s) = []"
  by (induction s arbitrary: pos) simp_all

lemma finditer_marks_group:
  "m \<in> set (finditer (marks_re u M) s) \<Longrightarrow>
     m_group m \<noteq> [] \<and> has_mark M (m_group m) \<and> (\<forall>x\<in>set (m_group m). wm u M x)"
  unfolding finditer_def
  using scan_marks_Hit[of "m_group m" u M s] by (auto dest!: matches_from_Hit simp: has_mark_iff)

lemma finditer_no_mark: "\<not> has_mark M s \<Longrightarrow> finditer (marks_re u M) s = []"
  by (simp add: finditer_def scan_marks_no_mark matches_from_map_Skip)

section \<open>The digit protection and its reversal\<close>

lemma protect_3: "protect ph [a, b, d] = Inr [a, ph, d]"
  by (simp add: protect_def py_index_def)

lemma re_sub_fn_digit_sep:
  "re_sub_fn (digit_sep u x) (protect ph) s = Inr (protected u x ph s)"
  unfolding re_sub_fn_def
  by (induction u x ph s rule: protected.induct)
     (simp_all add: scan_digit_sep_3 scan_digit_sep_2 scan_digit_sep_1 scan_digit_sep_Nil protect_3)

lemma escape_eq: "escape u s = Inr (protected u 46 35 (protected u 44 167 s))"
  by (simp add: escape_def re_sub_fn_digit_sep)

lemma protected_Nil_iff: "protected u x ph s = [] \<longleftrightarrow> s = []"
  by (induction u x ph s rule: protected.induct) auto

lemma length_protected: "length (protected u x ph s) = length s"
  by (induction u x ph s rule: protected.induct) auto

lemma set_protected: "set (protected u x ph s) \<subseteq> insert ph (set s)"
  by (induction u x ph s rule: protected.induct) auto

lemma protected_reversed:
  "ph \<notin> set s \<Longrightarrow> map (\<lambda>c. if c = ph then x else c) (protected u x ph s) = s"
  by (induction u x ph s rule: protected.induct) auto

lemma re_sub_str_Cls_eq:
  "re_sub_str (Cls (\<lambda>c. c = a)) [b] s = map (\<lambda>c. if c = a then b else c) s"
  by (induction s) (simp_all add: re_sub_str_def scan_Cls)

lemma unescape_eq:
  "unescape s = map (\<lambda>c. if c = 167 then 44 else if c = 35 then 46 else c) s"
  by (simp add: unescape_def re_sub_str_Cls_eq)

lemma unescape_no_placeholder: "167 \<notin> set (unescape s) \<and> 35 \<notin> set (unescape s)"
  by (auto simp: unescape_eq)

lemma unescape_protected:
  assumes "167 \<notin> set s" "35 \<notin> set s"
  shows "unescape (protected u 46 35 (protected u 44 167 s)) = s"
proof -
  let ?s1 = "protected u 44 167 s"
  have "35 \<notin> set ?s1" using set_protected[of u 44 167 s] assms by auto
  then have 1: "map (\<lambda>c. if c = 35 then 46 else c) (protected u 46 35 ?s1) = ?s1"
    by (rule protected_reversed)
  have 2: "map (\<lambda>c. if c = 167 then 44 else c) ?s1 = s"
    using assms(1) by (rule protected_reversed)
  have "unescape (protected u 46 35 ?s1) =
        map (\<lambda>c. if c = 167 then 44 else c) (map (\<lambda>c. if c = 35 then 46 else c) (protected u 46 35 ?s1))"
    by (simp add: unescape_eq)
  then show ?thesis by (simp only: 1 2)
qed

section \<open>No operation of preserve raises\<close>

lemma split_from_ne: "split_from sep s \<noteq> []"
  by (induction s) (auto simp: split_from_Nil split_from_Cons split: list.splits)

lemma split_marks_total:
  "\<forall>mk\<in>set mks. mark mk \<noteq> [] \<Longrightarrow> \<exists>pre rest. split_marks mks acc line = Inr (pre, rest)"
proof (induction mks arbitrary: acc line)
  case Nil
  then show ?case by simp
next
  case (Cons mk mks)
  obtain p ps where "split_from (mark mk) line = p # ps"
    using split_from_ne[of "mark mk" line] by (cases "split_from (mark mk) line") auto
  with Cons show ?case by (simp add: py_split_def)
qed

lemma preserve_line_total:
  "\<exists>chunks mks. preserve_line u (punct u v) line num = Inr (chunks, mks)"
proof -
  let ?line = "protected u 46 35 (protected u 44 167 line)"
  show ?thesis
  proof (cases "finditer (marks_re u (set v)) ?line")
    case Nil
    then show ?thesis by (simp add: preserve_line_def escape_eq punct_def)
  next
    case (Cons m0 others)
    let ?mks = "map (\<lambda>m. \<lparr>index = num, mark = m_group m,
                   position = classify m0 (last (m0 # others)) ?line m\<rparr>) (m0 # others)"
    have "\<forall>mk\<in>set ?mks. mark mk \<noteq> []"
      using finditer_marks_group[of _ u "set v" ?line] Cons by auto
    from split_marks_total[OF this, of "[]" ?line]
    obtain pre rest where "split_marks ?mks [] ?line = Inr (pre, rest)" by blast
    with Cons show ?thesis
      by (simp add: preserve_line_def escape_eq punct_def Let_def del: split_marks.simps)
  qed
qed

lemma preserve_loop_total:
  "\<exists>chunks mks. preserve_loop u (punct u v) num ls acc1 acc2 = Inr (chunks, mks)"
proof (induction ls arbitrary: num acc1 acc2)
  case Nil
  then show ?case by simp
next
  case (Cons l ls)
  obtain c m where "preserve_line u (punct u v) l num = Inr (c, m)"
    using preserve_line_total by blast
  with Cons show ?case by simp
qed


lemma set_marks_Inr_iff:
  "set_marks u x = Inr self \<longleftrightarrow> (\<exists>v. x = PyStr v \<and> v \<noteq> [] \<and> self = punct u v)"
  by (cases x) (auto simp: set_marks_def compile_marks_re_def punct_def)


lemma set_marks_empty: "set_marks u (PyStr []) = Inl ReError"
  by (simp add: set_marks_def compile_marks_re_def)

section \<open>The loop over the lines\<close>

lemma preserve_loop_acc:
  "preserve_loop u (punct u v) num ls [] [] = Inr (c, m) \<Longrightarrow>
     preserve_loop u (punct u v) num ls acc1 acc2 = Inr (acc1 @ c, acc2 @ m)"
proof (induction ls arbitrary: num acc1 acc2 c m)
  case Nil
  then show ?case by simp
next
  case (Cons l ls)
  obtain c0 m0 where l: "preserve_line u (punct u v) l num = Inr (c0, m0)"
    using preserve_line_total by blast
  obtain c' m' where r: "preserve_loop u (punct u v) (Suc num) ls [] [] = Inr (c', m')"
    using preserve_loop_total by blast
  from Cons.IH[OF r, of c0 m0] Cons.prems l have "c = c0 @ c'" "m = m0 @ m'" by auto
  with Cons.IH[OF r, of "acc1 @ c0" "acc2 @ m0"] l show ?case by simp
qed

lemma preserve_loop_append:
  "preserve_loop u (punct u v) num xs [] [] = Inr (c1, m1) \<Longrightarrow>
   preserve_loop u (punct u v) (num + length xs) zs [] [] = Inr (c2, m2) \<Longrightarrow>
     preserve_loop u (punct u v) num (xs @ zs) [] [] = Inr (c1 @ c2, m1 @ m2)"
proof (induction xs arbitrary: num c1 m1)
  case Nil
  then show ?case by simp
next
  case (Cons x xs)
  obtain c0 m0 where l: "preserve_line u (punct u v) x num = Inr (c0, m0)"
    using preserve_line_total by blast
  obtain c' m' where r: "preserve_loop u (punct u v) (Suc num) xs [] [] = Inr (c', m')"
    using preserve_loop_total by blast
  from preserve_loop_acc[OF r, of c0 m0] Cons.prems(1) l have 1: "c1 = c0 @ c'" "m1 = m0 @ m'"
    by auto
  from Cons.IH[OF r] Cons.prems(2)
  have "preserve_loop u (punct u v) (Suc num) (xs @ zs) [] [] = Inr (c' @ c2, m' @ m2)" by simp
  from preserve_loop_acc[OF this, of c0 m0] l 1 show ?case by simp
qed

lemma preserve_line_empty: "preserve_line u (punct u v) [] num = Inr ([[]], [])"
  by (simp add: preserve_line_def escape_eq punct_def finditer_def scan_marks_re_Nil unescape_eq)

lemma preserve_with_empty_line:
  "\<exists>c1 m1 c2 m2.
     preserve_loop u (punct u v) 0 xs [] [] = Inr (c1, m1) \<and>
     preserve_loop u (punct u v) (Suc (length xs)) ys [] [] = Inr (c2, m2) \<and>
     preserve u (punct u v) (Lines (xs @ [] # ys)) =
       Inr (filter (\<lambda>line. line \<noteq> []) (c1 @ c2), m1 @ m2)"
proof -
  obtain c1 m1 where 1: "preserve_loop u (punct u v) 0 xs [] [] = Inr (c1, m1)"
    using preserve_loop_total by blast
  obtain c2 m2 where 2: "preserve_loop u (punct u v) (Suc (length xs)) ys [] [] = Inr (c2, m2)"
    using preserve_loop_total by blast
  from preserve_loop_acc[OF 2, of "[[]]" "[]"]
  have "preserve_loop u (punct u v) (0 + length xs) ([] # ys) [] [] = Inr ([[]] @ c2, m2)"
    by (simp add: preserve_line_empty)
  from preserve_loop_append[OF 1 this]
  have "preserve u (punct u v) (Lines (xs @ [] # ys)) =
       Inr (filter (\<lambda>line. line \<noteq> []) (c1 @ c2), m1 @ m2)"
    by (simp add: preserve_def)
  with 1 2 show ?thesis by blast
qed

lemma preserve_chunks_nonempty:
  "preserve u self t = Inr (chunks, mks) \<Longrightarrow> \<forall>c\<in>set chunks. c \<noteq> []"
  by (auto simp: preserve_def split: sum.splits prod.splits)

lemma preserve_example_empty:
  "preserve py_tables (punct py_tables default_marks) (Lines [ustr ''a, b'', [], ustr ''c!'']) =
     Inr ([ustr ''a'', ustr ''b'', ustr ''c''],
          [\<lparr>index = 0, mark = ustr '', '', position = PosI\<rparr>,
           \<lparr>index = 2, mark = ustr ''!'', position = PosE\<rparr>])"
  by (simp add: eval_simps)

text \<open>
  C7. Every chunk that \<open>preserve\<close> returns is a non-empty string. An empty input line
  gives one empty chunk and no mark, and the empty chunk is dropped: the result of
  \<open>preserve\<close> on lines with an empty line among them is made of the chunks and marks of
  the lines before it and of the lines after it (which keep their places in the count
  of lines), and of nothing else.
\<close>

theorem preserve_chunks_nonempty_empty_line_silent:
  "(preserve u self t = Inr (chunks, mks) \<longrightarrow> (\<forall>c\<in>set chunks. c \<noteq> [])) \<and>
   (set_marks u x = Inr self \<longrightarrow>
      preserve_line u self [] num = Inr ([[]], []) \<and>
      (\<exists>c1 m1 c2 m2.
         preserve_loop u self 0 xs [] [] = Inr (c1, m1) \<and>
         preserve_loop u self (Suc (length xs)) ys [] [] = Inr (c2, m2) \<and>
         preserve u self (Lines (xs @ [] # ys)) =
           Inr (filter (\<lambda>line. line \<noteq> []) (c1 @ c2), m1 @ m2)))"
  using preserve_chunks_nonempty[of u self t chunks mks] preserve_with_empty_line[of u _ xs ys]
    preserve_line_empty[of u _ num]
  by (auto simp: set_marks_Inr_iff)

theorem preserve_chunks_nonempty_empty_line_silent_witness:
  "set_marks py_tables (PyStr default_marks) = Inr (punct py_tables default_marks) \<and>
   preserve py_tables (punct py_tables default_marks) (Lines [ustr ''a, b'', [], ustr ''c!'']) =
     Inr ([ustr ''a'', ustr ''b'', ustr ''c''],
          [\<lparr>index = 0, mark = ustr '', '', position = PosI\<rparr>,
           \<lparr>index = 2, mark = ustr ''!'', position = PosE\<rparr>]) \<and>
   [] \<notin> set [ustr ''a'', ustr ''b'', ustr ''c''] \<and>
   preserve_line py_tables (punct py_tables default_marks) [] 1 = Inr ([[]], [])"
  using preserve_chunks_nonempty_empty_line_silent
    [of py_tables "punct py_tables default_marks" "Lines [ustr ''a, b'', [], ustr ''c!'']"
        "[ustr ''a'', ustr ''b'', ustr ''c'']"
        "[\<lparr>index = 0, mark = ustr '', '', position = PosI\<rparr>,
          \<lparr>index = 2, mark = ustr ''!'', position = PosE\<rparr>]"
        "PyStr default_marks" 1 "[ustr ''a, b'']" "[ustr ''c!'']"]
    preserve_example_empty
  by (simp add: set_marks_PyStr default_marks_def ustr_def)

section \<open>Configuration and failure\<close>


lemma set_marks_default:
  "set_marks py_tables (PyStr default_marks) = Inr (punct py_tables default_marks)"
  by (simp add: set_marks_PyStr default_marks_def)











section \<open>A line made of one mark unit\<close>

lemma protected_changed: "protected u x ph s \<noteq> s \<Longrightarrow> ph \<in> set (protected u x ph s)"
  by (induction u x ph s rule: protected.induct) (auto split: if_splits)

lemma preserve_single_line:
  "preserve_line u self line 0 = Inr (chunks, mks) \<Longrightarrow>
     preserve u self (Lines [line]) = Inr (filter (\<lambda>l. l \<noteq> []) chunks, mks)"
  by (simp add: preserve_def)

lemma preserve_line_whole_line:
  assumes "escape u line0 = Inr line" "finditer (p_marks_re self) line = [m]" "m_group m = line"
  shows "preserve_line u self line0 num = Inr ([], [\<lparr>index = num, mark = line, position = PosA\<rparr>])"
  using assms by (simp add: preserve_line_def)

lemma whole_line_unchanged:
  assumes "escape u line0 = Inr line" "finditer (marks_re u M) line = [m]" "m_group m = line"
    and "167 \<notin> M" "35 \<notin> M" "\<not> isspace u 167" "\<not> isspace u 35"
  shows "line = line0"
proof -
  have "\<forall>x\<in>set line. wm u M x"
    using finditer_marks_group[of m u M line] assms(2,3) by simp
  then have no: "167 \<notin> set line" "35 \<notin> set line"
    using assms(4-7) by (auto simp: wm_def)
  let ?s1 = "protected u 44 167 line0"
  have line: "line = protected u 46 35 ?s1" using assms(1) by (simp add: escape_eq)
  have "line = ?s1" using protected_changed[of u 46 35 ?s1] no(2) line by auto
  moreover have "?s1 = line0" using protected_changed[of u 44 167 line0] no(1) calculation by auto
  ultimately show ?thesis by simp
qed

lemma preserve_example_bangs:
  "preserve py_tables (punct py_tables (ustr ''!'')) (Lines [ustr ''!!!'']) =
     Inr ([], [\<lparr>index = 0, mark = ustr ''!!!'', position = PosA\<rparr>])"
  by (simp add: eval_simps)

text \<open>
  C4. When mark detection, on the line as \<open>_preserve_line\<close> reads it after the digit
  protection, finds exactly one match and its text is the entire line, \<open>_preserve_line\<close>
  returns no chunk and exactly one mark record, whose text is that whole line and whose
  position is A; so does \<open>preserve\<close> for that line alone. That line is the input
  line itself as soon as neither placeholder is a mark or a whitespace character. In
  particular \<open>preserve\<close> of "!!!", with "!" the only mark, gives no chunk and the one
  record "!!!" of position A.
\<close>

theorem preserve_line_of_one_mark_unit:
  "(set_marks u x = Inr self \<and> escape u line0 = Inr line \<and>
    finditer (p_marks_re self) line = [m] \<and> m_group m = line \<longrightarrow>
      preserve_line u self line0 num =
        Inr ([], [\<lparr>index = num, mark = line, position = PosA\<rparr>]) \<and>
      preserve u self (Lines [line0]) =
        Inr ([], [\<lparr>index = 0, mark = line, position = PosA\<rparr>]) \<and>
      (167 \<notin> p_marks self \<and> 35 \<notin> p_marks self \<and> \<not> isspace u 167 \<and> \<not> isspace u 35 \<longrightarrow>
         line = line0)) \<and>
   preserve py_tables (punct py_tables (ustr ''!'')) (Lines [ustr ''!!!'']) =
     Inr ([], [\<lparr>index = 0, mark = ustr ''!!!'', position = PosA\<rparr>])"
proof -
  have "preserve_line u self line0 num =
          Inr ([], [\<lparr>index = num, mark = line, position = PosA\<rparr>]) \<and>
        preserve u self (Lines [line0]) =
          Inr ([], [\<lparr>index = 0, mark = line, position = PosA\<rparr>]) \<and>
        (167 \<notin> p_marks self \<and> 35 \<notin> p_marks self \<and> \<not> isspace u 167 \<and> \<not> isspace u 35 \<longrightarrow>
           line = line0)"
    if h: "set_marks u x = Inr self" "escape u line0 = Inr line"
      "finditer (p_marks_re self) line = [m]" "m_group m = line"
  proof -
    from h(1) obtain v where v: "self = punct u v" by (auto simp: set_marks_Inr_iff)
    have 1: "preserve_line u self line0 n = Inr ([], [\<lparr>index = n, mark = line, position = PosA\<rparr>])"
      for n by (rule preserve_line_whole_line[OF h(2-4)])
    have 2: "preserve u self (Lines [line0]) =
          Inr ([], [\<lparr>index = 0, mark = line, position = PosA\<rparr>])"
      using preserve_single_line[OF 1[of 0]] by simp
    have 3: "line = line0"
      if "167 \<notin> p_marks self \<and> 35 \<notin> p_marks self \<and> \<not> isspace u 167 \<and> \<not> isspace u 35"
      using whole_line_unchanged[of u line0 line "set v" m] h(2-4) that v
      by (simp add: punct_def)
    from 1 2 3 show ?thesis by blast
  qed
  with preserve_example_bangs show ?thesis by blast
qed

theorem preserve_line_of_one_mark_unit_witness:
  "set_marks py_tables (PyStr (ustr ''!'')) = Inr (punct py_tables (ustr ''!'')) \<and>
   escape py_tables (ustr ''!!!'') = Inr (ustr ''!!!'') \<and>
   finditer (p_marks_re (punct py_tables (ustr ''!''))) (ustr ''!!!'') =
     [\<lparr>m_start = 0, m_group = ustr ''!!!''\<rparr>] \<and>
   preserve_line py_tables (punct py_tables (ustr ''!'')) (ustr ''!!!'') 4 =
     Inr ([], [\<lparr>index = 4, mark = ustr ''!!!'', position = PosA\<rparr>])"
  using preserve_line_of_one_mark_unit
    [of py_tables "PyStr (ustr ''!'')" "punct py_tables (ustr ''!'')" "ustr ''!!!''" "ustr ''!!!''"
        "\<lparr>m_start = 0, m_group = ustr ''!!!''\<rparr>" 4]
  by (simp add: eval_simps set_marks_PyStr)

section \<open>Lines without marks\<close>

lemma preserve_line_no_mark:
  assumes "\<not> has_mark (set v) line" "167 \<notin> set line" "35 \<notin> set line" "167 \<notin> set v" "35 \<notin> set v"
  shows "preserve_line u (punct u v) line num = Inr ([line], [])"
proof -
  let ?e = "protected u 46 35 (protected u 44 167 line)"
  have "set ?e \<subseteq> insert 35 (insert 167 (set line))"
    using set_protected[of u 46 35 "protected u 44 167 line"] set_protected[of u 44 167 line]
    by auto
  then have "\<not> has_mark (set v) ?e" using assms by (auto simp: has_mark_iff)
  then have "finditer (marks_re u (set v)) ?e = []" by (rule finditer_no_mark)
  then show ?thesis
    using unescape_protected[OF assms(2,3), of u]
    by (simp add: preserve_line_def escape_eq punct_def)
qed

lemma roundtrip_no_mark:
  assumes "line \<noteq> []" "\<not> has_mark (set v) line" "167 \<notin> set line" "35 \<notin> set line"
    "167 \<notin> set v" "35 \<notin> set v"
  shows "preserve u (punct u v) (Lines [line]) = Inr ([line], [])"
  using preserve_single_line[OF preserve_line_no_mark[OF assms(2-6), of u 0]] assms(1) by simp

lemma roundtrip_empty_line: "preserve u (punct u v) (Lines [[]]) = Inr ([], [])"
  using preserve_single_line[OF preserve_line_empty[of u v 0]] by simp

text \<open>
  C1, as the code has it. For every non-empty line that holds no configured mark and
  neither placeholder of the digit protection (U+00A7, U+0023), on an object whose
  marks hold neither placeholder, \<open>preserve\<close> of the one line gives that line as the only
  chunk and no mark, and \<open>restore\<close> of that result gives back the one line, exactly. For
  the empty line \<open>preserve\<close> gives no chunk and no mark, and \<open>restore\<close> of that gives no
  line at all.
\<close>

theorem roundtrip_of_a_line_without_marks:
  "(set_marks u x = Inr self \<and> line \<noteq> [] \<and> (\<forall>c\<in>set line. c \<notin> p_marks self) \<and>
    167 \<notin> set line \<and> 35 \<notin> set line \<and> 167 \<notin> p_marks self \<and> 35 \<notin> p_marks self \<longrightarrow>
      preserve u self (Lines [line]) = Inr ([line], []) \<and>
      restore u (Lines [line]) [] = Inr [line]) \<and>
   (set_marks u x = Inr self \<longrightarrow>
      preserve u self (Lines [[]]) = Inr ([], []) \<and> restore u (Lines []) [] = Inr [])"
proof -
  have "preserve u self (Lines [line]) = Inr ([line], [])"
    if h: "set_marks u x = Inr self" "line \<noteq> []" "\<forall>c\<in>set line. c \<notin> p_marks self"
      "167 \<notin> set line" "35 \<notin> set line" "167 \<notin> p_marks self" "35 \<notin> p_marks self"
  proof -
    from h(1) obtain v where v: "self = punct u v" by (auto simp: set_marks_Inr_iff)
    with h have "\<not> has_mark (set v) line" "167 \<notin> set v" "35 \<notin> set v"
      by (auto simp: has_mark_iff punct_def)
    from roundtrip_no_mark[OF h(2) this(1) h(4,5) this(2,3)] v show ?thesis by simp
  qed
  moreover have "preserve u self (Lines [[]]) = Inr ([], [])" if "set_marks u x = Inr self"
    using that roundtrip_empty_line by (auto simp: set_marks_Inr_iff)
  ultimately show ?thesis by (auto simp: restore_def)
qed

theorem roundtrip_of_a_line_without_marks_witness:
  "set_marks py_tables (PyStr (ustr ''!?'')) = Inr (punct py_tables (ustr ''!?'')) \<and>
   ustr ''3,5 km'' \<noteq> [] \<and>
   set (ustr ''3,5 km'') \<inter> p_marks (punct py_tables (ustr ''!?'')) = {} \<and>
   167 \<notin> set (ustr ''3,5 km'') \<and> 35 \<notin> set (ustr ''3,5 km'') \<and>
   167 \<notin> p_marks (punct py_tables (ustr ''!?'')) \<and>
   35 \<notin> p_marks (punct py_tables (ustr ''!?'')) \<and>
   preserve py_tables (punct py_tables (ustr ''!?'')) (Lines [ustr ''3,5 km'']) =
     Inr ([ustr ''3,5 km''], []) \<and>
   restore py_tables (Lines [ustr ''3,5 km'']) [] = Inr [ustr ''3,5 km'']"
  using roundtrip_of_a_line_without_marks
    [of py_tables "PyStr (ustr ''!?'')" "punct py_tables (ustr ''!?'')" "ustr ''3,5 km''"]
  by (simp add: set_marks_PyStr punct_def ustr_def)

text \<open>
  The claim as the spec states it fails on the empty line, which comes back as no line
  at all, and on a line that holds a placeholder: "#" holds no default mark and comes
  back as ".".
\<close>

theorem roundtrip_counterexample:
  "preserve py_tables (punct py_tables default_marks) (Lines [[]]) = Inr ([], []) \<and>
   restore py_tables (Lines []) [] = Inr [] \<and>
   preserve py_tables (punct py_tables default_marks) (Lines [ustr ''#'']) =
     Inr ([ustr ''.''], []) \<and>
   restore py_tables (Lines [ustr ''.'']) [] = Inr [ustr ''.''] \<and>
   strip py_tables (ustr ''.'') \<noteq> strip py_tables (ustr ''#'')"
  by (simp add: eval_simps)

section \<open>The position of a mark\<close>

lemma matches_from_start: "m \<in> set (matches_from pos toks) \<Longrightarrow> pos \<le> m_start m"
  by (induction pos toks rule: matches_from.induct) auto

lemma matches_from_distinct:
  "\<forall>g. Hit g \<in> set toks \<longrightarrow> g \<noteq> [] \<Longrightarrow> distinct (matches_from pos toks)"
proof (induction pos toks rule: matches_from.induct)
  case (3 pos g ts)
  have "\<lparr>m_start = pos, m_group = g\<rparr> \<notin> set (matches_from (pos + length g) ts)"
  proof
    assume "\<lparr>m_start = pos, m_group = g\<rparr> \<in> set (matches_from (pos + length g) ts)"
    from matches_from_start[OF this] 3(2) show False by simp
  qed
  with 3 show ?case by simp
qed simp_all

lemma finditer_marks_distinct: "distinct (finditer (marks_re u M) s)"
  unfolding finditer_def
  by (rule matches_from_distinct) (auto dest: scan_marks_Hit_ne)

lemma matches_from_none: "matches_from pos ts = [] \<Longrightarrow> \<exists>post. ts = map Skip post"
proof (induction ts arbitrary: pos)
  case Nil
  then show ?case by simp
next
  case (Cons t ts)
  then obtain c where t: "t = Skip c" by (cases t) auto
  with Cons obtain post where "ts = map Skip post" by auto
  with t have "t # ts = map Skip (c # post)" by simp
  then show ?case by (rule exI[of _ "c # post"])
qed

lemma matches_from_single:
  "matches_from pos toks = [m] \<Longrightarrow>
     \<exists>pre post. toks = map Skip pre @ Hit (m_group m) # map Skip post"
proof (induction pos toks rule: matches_from.induct)
  case (1 pos)
  then show ?case by simp
next
  case (2 pos c ts)
  then obtain pre post where "ts = map Skip pre @ Hit (m_group m) # map Skip post" by auto
  then have "Skip c # ts = map Skip (c # pre) @ Hit (m_group m) # map Skip post" by simp
  then show ?case by blast
next
  case (3 pos g ts)
  then have e: "matches_from (pos + length g) ts = []" and g: "m_group m = g" by auto
  have "\<exists>post. ts = map Skip post" using e by (rule matches_from_none)
  then obtain post where "ts = map Skip post" by blast
  with g have "Hit g # ts = map Skip [] @ Hit (m_group m) # map Skip post" by simp
  then show ?case by blast
qed

lemma mark_at_front:
  assumes "\<exists>c\<in>set g. c \<in> M" "\<forall>c\<in>set pre. c \<notin> M" "prefix g (pre @ g @ post)"
  shows "pre = []"
proof -
  from assms(3) obtain z where z: "pre @ g @ post = g @ z" by (auto simp: prefix_def)
  from assms(1) obtain c where c: "c \<in> set g" "\<not> c \<notin> M" by auto
  have tw: "takeWhile (\<lambda>c. c \<notin> M) (g @ ys) = takeWhile (\<lambda>c. c \<notin> M) g" for ys
    using c by (rule takeWhile_append1)
  have "takeWhile (\<lambda>c. c \<notin> M) (pre @ g @ post) = pre @ takeWhile (\<lambda>c. c \<notin> M) g"
    using assms(2) tw by (simp add: takeWhile_append2)
  moreover have "takeWhile (\<lambda>c. c \<notin> M) (g @ z) = takeWhile (\<lambda>c. c \<notin> M) g"
    by (rule tw)
  ultimately have "pre @ takeWhile (\<lambda>c. c \<notin> M) g = takeWhile (\<lambda>c. c \<notin> M) g"
    using z by simp
  then show ?thesis by simp
qed

lemma single_match_whole_line:
  assumes "finditer (marks_re u M) line = [m]"
    and "prefix (m_group m) line" and "suffix (m_group m) line"
  shows "m_group m = line"
proof -
  let ?g = "m_group m"
  from assms(1) obtain pre post
    where toks: "scan (marks_re u M) False line = map Skip pre @ Hit ?g # map Skip post"
    unfolding finditer_def by (auto dest: matches_from_single)
  have line: "line = pre @ ?g @ post"
    using scan_marks_text[of u M line] by (simp add: toks comp_def)
  have skip: "\<forall>c\<in>set pre \<union> set post. c \<notin> M"
    using scan_marks_Skip[of _ u M line] by (auto simp: toks)
  have g: "\<exists>c\<in>set ?g. c \<in> M"
    using scan_marks_Hit[of ?g u M line] by (simp add: toks has_mark_iff)
  have pre: "pre = []"
    using mark_at_front[OF g, of pre post] skip assms(2) line by auto
  have "prefix (rev ?g) (rev post @ rev ?g @ [])"
    using assms(3) line pre by (simp add: suffix_to_prefix)
  then have "rev post = []"
    using mark_at_front[of "rev ?g" M "rev post" "[]"] g skip by auto
  with pre line show ?thesis by simp
qed

lemma classify_positions:
  assumes d: "distinct matches" and ne: "matches \<noteq> []" and i: "i < length matches"
    and notboth: "length matches = 1 \<Longrightarrow>
       \<not> (prefix (m_group (hd matches)) line \<and> suffix (m_group (hd matches)) line)"
  shows "(classify (hd matches) (last matches) line (matches ! i) = PosB \<longleftrightarrow>
            i = 0 \<and> prefix (m_group (matches ! i)) line) \<and>
         (classify (hd matches) (last matches) line (matches ! i) = PosE \<longleftrightarrow>
            i = length matches - 1 \<and> suffix (m_group (matches ! i)) line) \<and>
         (classify (hd matches) (last matches) line (matches ! i) = PosI \<longleftrightarrow>
            \<not> (i = 0 \<and> prefix (m_group (matches ! i)) line) \<and>
            \<not> (i = length matches - 1 \<and> suffix (m_group (matches ! i)) line)) \<and>
         classify (hd matches) (last matches) line (matches ! i) \<noteq> PosA"
proof -
  have first: "matches ! i = hd matches \<longleftrightarrow> i = 0"
    using d ne i by (metis hd_conv_nth length_greater_0_conv nth_eq_iff_index_eq)
  have final: "matches ! i = last matches \<longleftrightarrow> i = length matches - 1"
    using d ne i
    by (metis diff_less last_conv_nth length_greater_0_conv nth_eq_iff_index_eq zero_less_one)
  have one: "length matches = 1" if "i = 0" "i = length matches - 1"
    using that ne by (cases matches) auto
  show ?thesis
    using first final one notboth
    by (auto simp: classify_def hd_conv_nth[OF ne])
qed


lemma preserve_line_marks:
  assumes "finditer (marks_re u (set v)) (protected u 46 35 (protected u 44 167 line0)) = m0 # others"
    and "\<not> (others = [] \<and> m_group m0 = protected u 46 35 (protected u 44 167 line0))"
  shows "\<exists>chunks. preserve_line u (punct u v) line0 num =
           Inr (chunks, map (\<lambda>m. \<lparr>index = num, mark = m_group m,
                  position = classify m0 (last (m0 # others))
                               (protected u 46 35 (protected u 44 167 line0)) m\<rparr>) (m0 # others))"
proof -
  let ?line = "protected u 46 35 (protected u 44 167 line0)"
  let ?mks = "map (\<lambda>m. \<lparr>index = num, mark = m_group m,
                 position = classify m0 (last (m0 # others)) ?line m\<rparr>) (m0 # others)"
  have "\<forall>mk\<in>set ?mks. mark mk \<noteq> []"
    using finditer_marks_group[of _ u "set v" ?line] assms(1) by auto
  from split_marks_total[OF this, of "[]" ?line]
  obtain pre rest where "split_marks ?mks [] ?line = Inr (pre, rest)" by blast
  with assms show ?thesis
    by (auto simp add: preserve_line_def escape_eq punct_def Let_def simp del: split_marks.simps)
qed

lemma preserve_example_hello:
  "preserve_line py_tables (punct py_tables default_marks) (ustr ''hello, my world!'') 0 =
     Inr ([ustr ''hello'', ustr ''my world'', []],
          [\<lparr>index = 0, mark = ustr '', '', position = PosI\<rparr>,
           \<lparr>index = 0, mark = ustr ''!'', position = PosE\<rparr>])"
  by (simp add: eval_simps)

lemma finditer_example_hello:
  "finditer (p_marks_re (punct py_tables default_marks)) (ustr ''hello, my world!'') =
     [\<lparr>m_start = 5, m_group = ustr '', ''\<rparr>, \<lparr>m_start = 15, m_group = ustr ''!''\<rparr>]"
  by (simp add: eval_simps)

lemma escape_example_hello:
  "escape py_tables (ustr ''hello, my world!'') = Inr (ustr ''hello, my world!'')"
  by (simp add: eval_simps)

text \<open>
  C2. In \<open>_preserve_line\<close>, when the matches found on the line (as read after the digit
  protection) are not one single match that spans the whole line, there is one mark
  record for each match, in order, with the text of the match, and its position is B
  exactly when the match is the first one and the line starts with its text, E exactly
  when the match is the last one and the line ends with its text, and I in every other
  case.
\<close>

theorem position_of_each_match:
  "set_marks u x = Inr self \<and> escape u line0 = Inr line \<and>
   finditer (p_marks_re self) line = matches \<and> matches \<noteq> [] \<and>
   \<not> (length matches = 1 \<and> m_group (hd matches) = line) \<longrightarrow>
     (\<exists>chunks mks.
        preserve_line u self line0 num = Inr (chunks, mks) \<and> length mks = length matches \<and>
        (\<forall>i<length matches.
           index (mks ! i) = num \<and> mark (mks ! i) = m_group (matches ! i) \<and>
           (position (mks ! i) = PosB \<longleftrightarrow> i = 0 \<and> prefix (m_group (matches ! i)) line) \<and>
           (position (mks ! i) = PosE \<longleftrightarrow>
              i = length matches - 1 \<and> suffix (m_group (matches ! i)) line) \<and>
           (position (mks ! i) = PosI \<longleftrightarrow>
              \<not> (i = 0 \<and> prefix (m_group (matches ! i)) line) \<and>
              \<not> (i = length matches - 1 \<and> suffix (m_group (matches ! i)) line))))"
proof (intro impI, elim conjE)
  assume h: "set_marks u x = Inr self" "escape u line0 = Inr line"
    "finditer (p_marks_re self) line = matches" "matches \<noteq> []"
    "\<not> (length matches = 1 \<and> m_group (hd matches) = line)"
  from h(1) obtain v where v: "self = punct u v" by (auto simp: set_marks_Inr_iff)
  from h(2) have line: "line = protected u 46 35 (protected u 44 167 line0)"
    by (simp add: escape_eq)
  from h(3) v have fi: "finditer (marks_re u (set v)) line = matches" by (simp add: punct_def)
  from h(4) obtain m0 others where mo: "matches = m0 # others" by (cases matches) auto
  let ?f = "\<lambda>m. \<lparr>index = num, mark = m_group m,
                 position = classify (hd matches) (last matches) line m\<rparr>"
  have "\<not> (others = [] \<and> m_group m0 = line)" using h(5) mo by auto
  from preserve_line_marks[OF fi[unfolded line mo] this[unfolded line], of num]
  obtain chunks where pl: "preserve_line u self line0 num = Inr (chunks, map ?f matches)"
    unfolding v line mo by auto
  have d: "distinct matches" using fi finditer_marks_distinct by metis
  have notboth: "\<not> (prefix (m_group (hd matches)) line \<and> suffix (m_group (hd matches)) line)"
    if "length matches = 1"
  proof -
    from that mo have "matches = [m0]" by simp
    with fi have "finditer (marks_re u (set v)) line = [m0]" by simp
    from single_match_whole_line[OF this] h(5) that mo show ?thesis by auto
  qed
  have "index (map ?f matches ! i) = num \<and> mark (map ?f matches ! i) = m_group (matches ! i) \<and>
        (position (map ?f matches ! i) = PosB \<longleftrightarrow> i = 0 \<and> prefix (m_group (matches ! i)) line) \<and>
        (position (map ?f matches ! i) = PosE \<longleftrightarrow>
           i = length matches - 1 \<and> suffix (m_group (matches ! i)) line) \<and>
        (position (map ?f matches ! i) = PosI \<longleftrightarrow>
           \<not> (i = 0 \<and> prefix (m_group (matches ! i)) line) \<and>
           \<not> (i = length matches - 1 \<and> suffix (m_group (matches ! i)) line))"
    if "i < length matches" for i
    using classify_positions[OF d h(4) that notboth] that by simp
  with pl show "\<exists>chunks mks.
        preserve_line u self line0 num = Inr (chunks, mks) \<and> length mks = length matches \<and>
        (\<forall>i<length matches.
           index (mks ! i) = num \<and> mark (mks ! i) = m_group (matches ! i) \<and>
           (position (mks ! i) = PosB \<longleftrightarrow> i = 0 \<and> prefix (m_group (matches ! i)) line) \<and>
           (position (mks ! i) = PosE \<longleftrightarrow>
              i = length matches - 1 \<and> suffix (m_group (matches ! i)) line) \<and>
           (position (mks ! i) = PosI \<longleftrightarrow>
              \<not> (i = 0 \<and> prefix (m_group (matches ! i)) line) \<and>
              \<not> (i = length matches - 1 \<and> suffix (m_group (matches ! i)) line)))"
    by (intro exI[of _ chunks] exI[of _ "map ?f matches"]) simp
qed


theorem position_of_each_match_witness:
  "set_marks py_tables (PyStr default_marks) = Inr (punct py_tables default_marks) \<and>
   escape py_tables (ustr ''hello, my world!'') = Inr (ustr ''hello, my world!'') \<and>
   finditer (p_marks_re (punct py_tables default_marks)) (ustr ''hello, my world!'') =
     [\<lparr>m_start = 5, m_group = ustr '', ''\<rparr>, \<lparr>m_start = 15, m_group = ustr ''!''\<rparr>] \<and>
   [\<lparr>m_start = 5, m_group = ustr '', ''\<rparr>, \<lparr>m_start = 15, m_group = ustr ''!''\<rparr>] \<noteq> [] \<and>
   \<not> (length [\<lparr>m_start = 5, m_group = ustr '', ''\<rparr>, \<lparr>m_start = 15, m_group = ustr ''!''\<rparr>] = 1 \<and>
      m_group (hd [\<lparr>m_start = 5, m_group = ustr '', ''\<rparr>, \<lparr>m_start = 15, m_group = ustr ''!''\<rparr>]) =
        ustr ''hello, my world!'') \<and>
   (\<exists>chunks mks.
      preserve_line py_tables (punct py_tables default_marks) (ustr ''hello, my world!'') 0 =
        Inr (chunks, mks) \<and>
      length mks = 2 \<and> position (mks ! 0) = PosI \<and> position (mks ! 1) = PosE \<and>
      mark (mks ! 0) = ustr '', '' \<and> mark (mks ! 1) = ustr ''!'')"
proof -
  have h: "set_marks py_tables (PyStr default_marks) = Inr (punct py_tables default_marks) \<and>
   escape py_tables (ustr ''hello, my world!'') = Inr (ustr ''hello, my world!'') \<and>
   finditer (p_marks_re (punct py_tables default_marks)) (ustr ''hello, my world!'') =
     [\<lparr>m_start = 5, m_group = ustr '', ''\<rparr>, \<lparr>m_start = 15, m_group = ustr ''!''\<rparr>] \<and>
   [\<lparr>m_start = 5, m_group = ustr '', ''\<rparr>, \<lparr>m_start = 15, m_group = ustr ''!''\<rparr>] \<noteq> [] \<and>
   \<not> (length [\<lparr>m_start = 5, m_group = ustr '', ''\<rparr>, \<lparr>m_start = 15, m_group = ustr ''!''\<rparr>] = 1 \<and>
      m_group (hd [\<lparr>m_start = 5, m_group = ustr '', ''\<rparr>, \<lparr>m_start = 15, m_group = ustr ''!''\<rparr>]) =
        ustr ''hello, my world!'')"
    by (simp add: set_marks_default escape_example_hello finditer_example_hello)
  from position_of_each_match
    [of py_tables "PyStr default_marks" "punct py_tables default_marks" "ustr ''hello, my world!''"
        "ustr ''hello, my world!''"
        "[\<lparr>m_start = 5, m_group = ustr '', ''\<rparr>, \<lparr>m_start = 15, m_group = ustr ''!''\<rparr>]" 0] h
  obtain chunks mks where r:
    "preserve_line py_tables (punct py_tables default_marks) (ustr ''hello, my world!'') 0 =
       Inr (chunks, mks)"
    "length mks = 2"
    "\<forall>i<2. index (mks ! i) = 0 \<and>
       mark (mks ! i) =
         m_group ([\<lparr>m_start = 5, m_group = ustr '', ''\<rparr>, \<lparr>m_start = 15, m_group = ustr ''!''\<rparr>] ! i) \<and>
       (position (mks ! i) = PosB \<longleftrightarrow>
          i = 0 \<and> prefix (m_group ([\<lparr>m_start = 5, m_group = ustr '', ''\<rparr>, \<lparr>m_start = 15, m_group = ustr ''!''\<rparr>] ! i))
                     (ustr ''hello, my world!'')) \<and>
       (position (mks ! i) = PosE \<longleftrightarrow>
          i = 2 - 1 \<and> suffix (m_group ([\<lparr>m_start = 5, m_group = ustr '', ''\<rparr>, \<lparr>m_start = 15, m_group = ustr ''!''\<rparr>] ! i))
                         (ustr ''hello, my world!'')) \<and>
       (position (mks ! i) = PosI \<longleftrightarrow>
          \<not> (i = 0 \<and> prefix (m_group ([\<lparr>m_start = 5, m_group = ustr '', ''\<rparr>, \<lparr>m_start = 15, m_group = ustr ''!''\<rparr>] ! i))
                        (ustr ''hello, my world!'')) \<and>
          \<not> (i = 2 - 1 \<and> suffix (m_group ([\<lparr>m_start = 5, m_group = ustr '', ''\<rparr>, \<lparr>m_start = 15, m_group = ustr ''!''\<rparr>] ! i))
                            (ustr ''hello, my world!'')))"
    by auto
  from r(3)[rule_format, of 0] r(3)[rule_format, of 1]
  have "position (mks ! 0) = PosI \<and> position (mks ! 1) = PosE \<and>
        mark (mks ! 0) = ustr '', '' \<and> mark (mks ! 1) = ustr ''!''"
    by (simp add: ustr_def suffix_to_prefix)
  with r(1,2) h show ?thesis by blast
qed

section \<open>Where the matches lie\<close>

lemma matches_from_span:
  "m \<in> set (matches_from pos toks) \<Longrightarrow>
     pos \<le> m_start m \<and>
     m_start m - pos + length (m_group m) \<le> length (concat (map tok_text toks)) \<and>
     m_group m = take (length (m_group m)) (drop (m_start m - pos) (concat (map tok_text toks)))"
proof (induction pos toks rule: matches_from.induct)
  case (1 pos)
  then show ?case by simp
next
  case (2 pos c ts)
  then have ih: "Suc pos \<le> m_start m"
    "m_start m - Suc pos + length (m_group m) \<le> length (concat (map tok_text ts))"
    "m_group m = take (length (m_group m)) (drop (m_start m - Suc pos) (concat (map tok_text ts)))"
    by auto
  from ih(1) have "m_start m - pos = Suc (m_start m - Suc pos)" by simp
  with ih show ?case by simp
next
  case (3 pos g ts)
  show ?case
  proof (cases "m = \<lparr>m_start = pos, m_group = g\<rparr>")
    case True
    then show ?thesis by simp
  next
    case False
    with 3 have ih: "pos + length g \<le> m_start m"
      "m_start m - (pos + length g) + length (m_group m) \<le> length (concat (map tok_text ts))"
      "m_group m = take (length (m_group m))
                     (drop (m_start m - (pos + length g)) (concat (map tok_text ts)))"
      by auto
    from ih(1) have "m_start m - pos = length g + (m_start m - (pos + length g))" by simp
    with ih show ?thesis by simp
  qed
qed

lemma finditer_marks_span:
  assumes "m \<in> set (finditer (marks_re u M) s)"
  shows "m_start m + length (m_group m) \<le> length s"
    and "m_group m = take (length (m_group m)) (drop (m_start m) s)"
  using matches_from_span[of m 0 "scan (marks_re u M) False s"] assms
  by (simp_all add: finditer_def scan_marks_text)

lemma finditer_marks_nth:
  assumes "m \<in> set (finditer (marks_re u M) s)"
    and "m_start m \<le> i" "i < m_start m + length (m_group m)"
  shows "wm u M (s ! i)"
proof -
  let ?k = "i - m_start m"
  have k: "?k < length (m_group m)" using assms(2,3) by simp
  have "m_group m ! ?k = take (length (m_group m)) (drop (m_start m) s) ! ?k"
    using finditer_marks_span(2)[OF assms(1)] by simp
  also have "\<dots> = s ! i"
    using k assms(2) finditer_marks_span(1)[OF assms(1)] by simp
  finally have "s ! i \<in> set (m_group m)" using k by (metis nth_mem)
  then show ?thesis using finditer_marks_group[OF assms(1)] by simp
qed

lemma protected_rel: "list_all2 (\<lambda>a b. a = b \<or> (a = ph \<and> b = x)) (protected u x ph s) s"
  by (induction u x ph s rule: protected.induct) (auto simp: list_all2_Cons1)

lemma escape_rel:
  "list_all2 (\<lambda>a b. a = b \<or> (a = 167 \<and> b = 44) \<or> (a = 35 \<and> b = 46))
     (protected u 46 35 (protected u 44 167 s)) s"
proof -
  have "list_all2 ((\<lambda>a b. a = b \<or> (a = 35 \<and> b = 46)) OO (\<lambda>a b. a = b \<or> (a = 167 \<and> b = 44)))
          (protected u 46 35 (protected u 44 167 s)) s"
    using protected_rel[of 35 46 u "protected u 44 167 s"] protected_rel[of 167 44 u s]
    by (auto simp: list.rel_compp)
  then show ?thesis by (rule list_all2_mono) auto
qed

lemma preserve_line_chunks_unescaped:
  "preserve_line u self line0 num = Inr (chunks, mks) \<Longrightarrow>
     \<forall>c\<in>set chunks. 167 \<notin> set c \<and> 35 \<notin> set c"
  using unescape_no_placeholder
  by (auto simp: preserve_line_def Let_def split: sum.splits list.splits if_splits prod.splits)


lemma preserve_line_mark_texts:
  "preserve_line u (punct u v) line0 num = Inr (chunks, mks) \<Longrightarrow>
     map mark mks =
       map m_group (finditer (marks_re u (set v)) (protected u 46 35 (protected u 44 167 line0)))"
  by (auto simp: preserve_line_def escape_eq punct_def Let_def comp_def
           split: sum.splits list.splits if_splits prod.splits)

lemma preserve_example_pi:
  "preserve py_tables (punct py_tables default_marks) (Lines [ustr ''3,14 is pi.'']) =
     Inr ([ustr ''3,14 is pi''], [\<lparr>index = 0, mark = ustr ''.'', position = PosE\<rparr>])"
  by (simp add: eval_simps)

lemma finditer_example_pi:
  "escape py_tables (ustr ''3,14 is pi.'') = Inr [51, 167, 49, 52, 32, 105, 115, 32, 112, 105, 46] \<and>
   finditer (p_marks_re (punct py_tables default_marks))
     [51, 167, 49, 52, 32, 105, 115, 32, 112, 105, 46] = [\<lparr>m_start = 10, m_group = ustr ''.''\<rparr>]"
  by (simp add: eval_simps)

section \<open>remove, applied twice\<close>

lemma re_sub_str_marks:
  "re_sub_str (marks_re u M) [32] s = replace_mark_runs u M s"
  unfolding re_sub_str_def
  by (induction u M s rule: replace_mark_runs.induct)
     (simp_all add: scan_marks_re_Nil scan_marks_re_Cons del: takeWhile.simps dropWhile.simps)

lemma isolated_weaken: "isolated u M True s \<Longrightarrow> isolated u M False s"
  by (cases s) auto

lemma isolated_any: "isolated u M p s \<Longrightarrow> isolated u M False s"
  by (cases p) (auto intro: isolated_weaken)

lemma isolated_dropWhile: "isolated u M p s \<Longrightarrow> isolated u M False (dropWhile q s)"
proof (induction s arbitrary: p)
  case Nil
  then show ?case by simp
next
  case (Cons c cs)
  show ?case
  proof (cases "q c")
    case True
    with Cons show ?thesis by auto
  next
    case False
    with Cons.prems show ?thesis by (simp del: isolated.simps add: isolated_any)
  qed
qed

lemma isolated_prefix: "isolated u M p (s @ t) \<Longrightarrow> isolated u M p s"
proof (induction s arbitrary: p)
  case Nil
  then show ?case by simp
next
  case (Cons c cs)
  then show ?case by (cases cs) auto
qed

lemma isolated_rstrip: "isolated u M p s \<Longrightarrow> isolated u M p (rev (dropWhile q (rev s)))"
proof -
  have "s = rev (dropWhile q (rev s)) @ rev (takeWhile q (rev s))"
    by (metis rev_append rev_rev_ident takeWhile_dropWhile_id)
  then show "isolated u M p s \<Longrightarrow> isolated u M p (rev (dropWhile q (rev s)))"
    using isolated_prefix by metis
qed

lemma isolated_strip: "isolated u M p s \<Longrightarrow> isolated u M False (strip u s)"
  unfolding strip_def by (intro isolated_rstrip isolated_dropWhile)

lemma isolated_no_run: "isolated u M True s \<Longrightarrow> \<not> has_mark M (takeWhile (wm u M) s)"
proof (induction s)
  case Nil
  then show ?case by (simp add: has_mark_iff)
next
  case (Cons c cs)
  then show ?case by (cases "wm u M c") (auto simp: has_mark_iff)
qed

lemma isolated_fixed: "isolated u M p s \<Longrightarrow> replace_mark_runs u M s = s"
proof (induction s arbitrary: p)
  case Nil
  then show ?case by simp
next
  case (Cons c cs)
  from Cons.prems have iso: "isolated u M (wm u M c) cs" by simp
  show ?case
  proof (cases "c \<in> M")
    case True
    with Cons.prems have c: "c = 32" and nxt: "case cs of [] \<Rightarrow> True | d # _ \<Rightarrow> \<not> wm u M d"
      by auto
    from nxt have tw: "takeWhile (wm u M) cs = []" "dropWhile (wm u M) cs = cs"
      by (cases cs; simp)+
    from True have "wm u M c" by (simp add: wm_def)
    with True tw Cons.IH[OF iso] c show ?thesis by (simp add: has_mark_iff)
  next
    case False
    have "\<not> has_mark M (takeWhile (wm u M) (c # cs))"
    proof (cases "wm u M c")
      case True
      with iso have "\<not> has_mark M (takeWhile (wm u M) cs)" by (simp add: isolated_no_run)
      with False True show ?thesis by (simp add: has_mark_iff)
    next
      case False
      then show ?thesis by (simp add: has_mark_iff)
    qed
    with Cons.IH[OF iso] show ?thesis by (simp del: takeWhile.simps)
  qed
qed

lemma replace_mark_runs_isolated:
  "(p \<longrightarrow> \<not> has_mark M (takeWhile (wm u M) s)) \<Longrightarrow> isolated u M p (replace_mark_runs u M s)"
proof (induction s arbitrary: p rule: scan_marks_re_induct[of _ M u])
  case Nil
  then show ?case by simp
next
  case (Hit c cs)
  let ?s' = "dropWhile (wm u M) (c # cs)"
  have tw: "takeWhile (wm u M) ?s' = []" by (metis dropWhile_eq_Nil_conv dropWhile_hd list.exhaust takeWhile.simps(1) takeWhile.simps(2) takeWhile_eq_all_conv)
  then have iso: "isolated u M q (replace_mark_runs u M ?s')" for q
    using Hit.IH[of q] by (simp add: has_mark_iff)
  have hd: "case replace_mark_runs u M ?s' of [] \<Rightarrow> True | d # _ \<Rightarrow> \<not> wm u M d"
  proof (cases ?s')
    case Nil
    then show ?thesis by simp
  next
    case (Cons d ds)
    then have "\<not> wm u M d" by (metis dropWhile_hd)
    then show ?thesis unfolding Cons by (simp add: has_mark_iff)
  qed
  from Hit.hyps Hit.prems have "\<not> p" by simp
  with Hit.hyps iso hd show ?case
    by (simp del: takeWhile.simps dropWhile.simps)
next
  case (Skip c cs)
  have c: "c \<notin> M" using Skip.hyps by (auto simp: has_mark_iff wm_def split: if_splits)
  have "wm u M c \<longrightarrow> \<not> has_mark M (takeWhile (wm u M) cs)"
    using Skip.hyps by (auto simp: has_mark_iff)
  from Skip.IH[OF this] Skip.hyps c show ?case by (simp del: takeWhile.simps)
qed

lemma strip_idem: "strip u (strip u s) = strip u s"
proof -
  let ?t = "dropWhile (isspace u) s"
  let ?y = "rev (dropWhile (isspace u) (rev ?t))"
  have t: "?t = ?y @ rev (takeWhile (isspace u) (rev ?t))"
    by (metis rev_append rev_rev_ident takeWhile_dropWhile_id)
  have "dropWhile (isspace u) ?y = ?y"
  proof (cases ?y)
    case Nil
    then show ?thesis by (simp only: dropWhile.simps)
  next
    case (Cons a as)
    with t have "?t = a # (as @ rev (takeWhile (isspace u) (rev ?t)))" by simp
    then have "\<not> isspace u a" by (metis dropWhile_hd)
    with Cons show ?thesis by simp
  qed
  then show ?thesis by (simp add: strip_def)
qed

lemma remove_aux_eq:
  "remove_aux u (punct u v) s = strip u (replace_mark_runs u (set v) s)"
  by (simp add: remove_aux_def punct_def re_sub_str_marks)

lemma remove_aux_idem:
  "remove_aux u (punct u v) (remove_aux u (punct u v) s) = remove_aux u (punct u v) s"
proof -
  let ?x = "replace_mark_runs u (set v) s"
  have "isolated u (set v) False ?x" by (rule replace_mark_runs_isolated) simp
  then have "isolated u (set v) False (strip u ?x)" by (rule isolated_strip)
  then have "replace_mark_runs u (set v) (strip u ?x) = strip u ?x" by (rule isolated_fixed)
  then show ?thesis by (simp add: remove_aux_eq strip_idem)
qed

lemma remove_idem: "remove u (punct u v) (remove u (punct u v) t) = remove u (punct u v) t"
  by (cases t) (simp_all add: remove_aux_idem)


lemma remove_example:
  "remove py_tables (punct py_tables default_marks) (Str (ustr '' hello , world ! '')) =
     Str (ustr ''hello world'')"
  by (simp add: eval_simps)

text \<open>
  C8. \<open>remove\<close> is idempotent: on an object that the setter has built, and for every text,
  a string or a list of strings, removing twice gives what removing once gives. What
  \<open>remove\<close> does to a string is what the spec says: every maximal run of whitespace and
  marks that holds a mark is replaced by one space, and the result is trimmed at both
  ends; a list is treated line by line.
\<close>

theorem remove_idempotent:
  "set_marks u x = Inr self \<longrightarrow>
     remove u self (remove u self t) = remove u self t \<and>
     remove u self (Str s) = Str (strip u (replace_mark_runs u (p_marks self) s)) \<and>
     remove u self (Lines ls) =
       Lines (map (\<lambda>l. strip u (replace_mark_runs u (p_marks self) l)) ls)"
proof
  assume "set_marks u x = Inr self"
  then obtain v where v: "self = punct u v" by (auto simp: set_marks_Inr_iff)
  have "p_marks self = set v" by (simp add: v punct_def)
  then show "remove u self (remove u self t) = remove u self t \<and>
     remove u self (Str s) = Str (strip u (replace_mark_runs u (p_marks self) s)) \<and>
     remove u self (Lines ls) =
       Lines (map (\<lambda>l. strip u (replace_mark_runs u (p_marks self) l)) ls)"
    unfolding v by (simp add: remove_idem remove_aux_eq)
qed

theorem remove_idempotent_witness:
  "set_marks py_tables (PyStr default_marks) = Inr (punct py_tables default_marks) \<and>
   remove py_tables (punct py_tables default_marks) (Str (ustr '' hello , world ! '')) =
     Str (ustr ''hello world'') \<and>
   remove py_tables (punct py_tables default_marks) (Str (ustr ''hello world'')) =
     Str (ustr ''hello world'')"
  using remove_idempotent
    [of py_tables "PyStr default_marks" "punct py_tables default_marks"
        "Str (ustr '' hello , world ! '')" "[]" "[]"]
    set_marks_default remove_example
  by simp

section \<open>The chunks are the text between the marks\<close>

lemma gaps_ne: "gaps toks \<noteq> []"
  by (induction toks rule: gaps.induct) (auto split: list.splits)

lemma gaps_map_Skip: "gaps (map Skip s) = [s]"
  by (induction s) simp_all

lemma gaps_Skips_Hit: "gaps (map Skip pre @ Hit g # ts) = pre # gaps ts"
  by (induction pre) simp_all

lemma hits_Skips_Hit: "hits (map Skip pre @ Hit g # ts) = g # hits ts"
  by (induction pre) simp_all

lemma hits_matches_from: "map m_group (matches_from pos toks) = hits toks"
  by (induction pos toks rule: matches_from.induct) simp_all

lemma hits_none: "hits toks = [] \<Longrightarrow> \<exists>s. toks = map Skip s"
proof (induction toks rule: hits.induct)
  case 1
  then show ?case by simp
next
  case (2 c ts)
  then obtain s where "ts = map Skip s" by auto
  then have "Skip c # ts = map Skip (c # s)" by simp
  then show ?case by (rule exI[of _ "c # s"])
next
  case (3 g ts)
  then show ?case by simp
qed

lemma weave_gaps_hits: "weave (gaps toks) (hits toks) = concat (map tok_text toks)"
proof (induction toks rule: gaps.induct)
  case 1
  then show ?case by simp
next
  case (2 c ts)
  obtain p ps where g: "gaps ts = p # ps" using gaps_ne[of ts] by (cases "gaps ts") auto
  with 2 show ?case by (cases "hits ts") auto
next
  case (3 g ts)
  then show ?case by simp
qed

lemma py_join_Cons: "py_join sep ((c # p) # ps) = c # py_join sep (p # ps)"
  by (cases ps) simp_all

lemma split_from_ne': "\<exists>p ps. split_from sep s = p # ps"
  using split_from_ne[of sep s] by (cases "split_from sep s") auto

lemma join_split: "sep \<noteq> [] \<Longrightarrow> py_join sep (split_from sep s) = s"
proof (induction sep s rule: split_from.induct)
  case (1 sep s)
  show ?case
  proof (cases "prefix sep s")
    case True
    obtain p ps where ps: "split_from sep (drop (length sep) s) = p # ps"
      using split_from_ne' by blast
    from True have s: "s = sep @ drop (length sep) s" by (auto simp: prefix_def)
    from 1(1) 1(3) True have "py_join sep (p # ps) = drop (length sep) s" by (simp add: ps)
    moreover have "split_from sep s = [] # p # ps"
      using True 1(3) ps by (subst split_from.simps) simp
    ultimately have "py_join sep (split_from sep s) = sep @ drop (length sep) s" by simp
    with s show ?thesis by simp
  next
    case False
    show ?thesis
    proof (cases s)
      case Nil
      with False show ?thesis by (subst split_from.simps) simp
    next
      case (Cons c cs)
      obtain p ps where ps: "split_from sep cs = p # ps" using split_from_ne' by blast
      from 1(2)[OF _ Cons] False 1(3) have "py_join sep (p # ps) = cs" by (simp add: ps)
      with False Cons ps show ?thesis
        by (subst split_from.simps) (simp add: py_join_Cons del: py_join.simps)
    qed
  qed
qed

lemma split_from_first:
  assumes "sep \<noteq> []" "\<forall>c\<in>set pre. c \<notin> M" "pre \<noteq> [] \<longrightarrow> \<not> q (last pre)"
    and "\<exists>x\<in>set sep. x \<in> M" "\<forall>x\<in>set sep. q x"
  shows "split_from sep (pre @ sep @ tail) = pre # split_from sep tail"
  using assms(2,3)
proof (induction pre)
  case Nil
  then show ?case using assms(1) by (subst split_from.simps) simp
next
  case (Cons c pre)
  have np: "\<not> prefix sep ((c # pre) @ sep @ tail)"
  proof
    assume p: "prefix sep ((c # pre) @ sep @ tail)"
    have "prefix (c # pre) ((c # pre) @ sep @ tail)" by simp
    with p consider "prefix sep (c # pre)" | "prefix (c # pre) sep"
      using prefix_same_cases by blast
    then show False
    proof cases
      case 1
      then have "set sep \<subseteq> set (c # pre)" by (rule set_mono_prefix)
      with assms(4) Cons.prems(1) show False by auto
    next
      case 2
      then have "set (c # pre) \<subseteq> set sep" by (rule set_mono_prefix)
      then have "last (c # pre) \<in> set sep" by (metis last_in_set list.distinct(1) subsetD)
      with assms(5) Cons.prems(2) show False by auto
    qed
  qed
  from Cons.prems have "\<forall>c\<in>set pre. c \<notin> M" "pre \<noteq> [] \<longrightarrow> \<not> q (last pre)" by auto
  from Cons.IH[OF this] np show ?case by (subst split_from.simps) simp
qed


lemma scan_first_hit:
  "hits (scan (marks_re u M) False line) = g # gs \<Longrightarrow>
     \<exists>pre tail. line = pre @ g @ tail \<and>
       scan (marks_re u M) False line = map Skip pre @ Hit g # scan (marks_re u M) False tail \<and>
       (\<forall>c\<in>set pre. c \<notin> M) \<and> (pre \<noteq> [] \<longrightarrow> \<not> wm u M (last pre)) \<and>
       (pre = [] \<longrightarrow> has_mark M (takeWhile (wm u M) line))"
proof (induction line rule: scan_marks_re_induct[of _ M u])
  case Nil
  then show ?case by (simp add: scan_marks_re_Nil)
next
  case (Hit c cs)
  let ?g = "takeWhile (wm u M) (c # cs)" and ?t = "dropWhile (wm u M) (c # cs)"
  from Hit.prems Hit.hyps have g: "g = ?g"
    by (simp add: scan_marks_re_Cons del: takeWhile.simps dropWhile.simps)
  have "c # cs = [] @ ?g @ ?t" by simp
  moreover have "scan (marks_re u M) False (c # cs) =
      map Skip [] @ Hit ?g # scan (marks_re u M) False ?t"
    using Hit.hyps by (simp add: scan_marks_re_Cons del: takeWhile.simps dropWhile.simps)
  ultimately show ?case using Hit.hyps unfolding g
    by (intro exI[of _ "[]"] exI[of _ ?t]) (simp del: takeWhile.simps dropWhile.simps)
next
  case (Skip c cs)
  from Skip.prems Skip.hyps have "hits (scan (marks_re u M) False cs) = g # gs"
    by (simp add: scan_marks_re_Cons del: takeWhile.simps)
  from Skip.IH[OF this] obtain pre tail where ih:
    "cs = pre @ g @ tail"
    "scan (marks_re u M) False cs = map Skip pre @ Hit g # scan (marks_re u M) False tail"
    "\<forall>c\<in>set pre. c \<notin> M" "pre \<noteq> [] \<longrightarrow> \<not> wm u M (last pre)"
    "pre = [] \<longrightarrow> has_mark M (takeWhile (wm u M) cs)"
    by blast
  have c: "c \<notin> M" using Skip.hyps by (auto simp: has_mark_iff wm_def split: if_splits)
  have last: "\<not> wm u M (last (c # pre))"
  proof (cases "pre = []")
    case True
    with ih(5) have "has_mark M (takeWhile (wm u M) cs)" by simp
    with Skip.hyps have "\<not> wm u M c" by (auto simp: has_mark_iff)
    with True show ?thesis by simp
  next
    case False
    with ih(4) show ?thesis by simp
  qed
  have "c # cs = (c # pre) @ g @ tail" using ih(1) by simp
  moreover have "scan (marks_re u M) False (c # cs) =
      map Skip (c # pre) @ Hit g # scan (marks_re u M) False tail"
    using Skip.hyps ih(2) by (simp add: scan_marks_re_Cons del: takeWhile.simps)
  ultimately show ?case using ih(3) c last
    by (intro exI[of _ "c # pre"] exI[of _ tail]) simp
qed

lemma split_marks_scan:
  "map mark mks = hits (scan (marks_re u M) False line) \<Longrightarrow>
     split_marks mks acc line =
       Inr (acc @ butlast (gaps (scan (marks_re u M) False line)),
            last (gaps (scan (marks_re u M) False line)))"
proof (induction mks arbitrary: acc line)
  case Nil
  then obtain s where s: "scan (marks_re u M) False line = map Skip s"
    using hits_none[of "scan (marks_re u M) False line"] by auto
  then have "s = line" using scan_marks_text[of u M line] by (simp add: comp_def)
  with s show ?case by (simp add: gaps_map_Skip)
next
  case (Cons mk mks)
  let ?g = "mark mk"
  from Cons.prems have h: "hits (scan (marks_re u M) False line) = ?g # map mark mks" by simp
  from scan_first_hit[OF h] obtain pre tail where d:
    "line = pre @ ?g @ tail"
    "scan (marks_re u M) False line = map Skip pre @ Hit ?g # scan (marks_re u M) False tail"
    "\<forall>c\<in>set pre. c \<notin> M" "pre \<noteq> [] \<longrightarrow> \<not> wm u M (last pre)"
    by blast
  have "Hit ?g \<in> set (scan (marks_re u M) False line)" by (simp add: d(2))
  from scan_marks_Hit[OF this] have g: "\<exists>x\<in>set ?g. x \<in> M" "\<forall>x\<in>set ?g. wm u M x" "?g \<noteq> []"
    by (auto simp: has_mark_iff)
  have sp: "split_from ?g line = pre # split_from ?g tail"
    unfolding d(1) by (rule split_from_first[OF g(3) d(3,4) g(1,2)])
  have jn: "py_join ?g (split_from ?g tail) = tail" by (rule join_split[OF g(3)])
  have h': "map mark mks = hits (scan (marks_re u M) False tail)"
    using h by (simp add: d(2) hits_Skips_Hit)
  have "split_marks (mk # mks) acc line = split_marks mks (acc @ [pre]) tail"
    using g(3) sp jn by (simp add: py_split_def)
  also have "\<dots> = Inr ((acc @ [pre]) @ butlast (gaps (scan (marks_re u M) False tail)),
                      last (gaps (scan (marks_re u M) False tail)))"
    by (rule Cons.IH[OF h'])
  finally show ?case by (simp add: d(2) gaps_Skips_Hit gaps_ne)
qed

lemma gaps_split: "weave (butlast (gaps toks) @ [last (gaps toks)]) (hits toks) =
    concat (map tok_text toks)"
  using weave_gaps_hits[of toks] gaps_ne[of toks] by simp

lemma preserve_line_partition:
  assumes "preserve_line u (punct u v) line0 num = Inr (chunks, mks)"
  shows "\<exists>raw. chunks = map unescape raw \<and>
           weave raw (map mark mks) = protected u 46 35 (protected u 44 167 line0)"
proof -
  let ?line = "protected u 46 35 (protected u 44 167 line0)"
  let ?toks = "scan (marks_re u (set v)) False ?line"
  show ?thesis
  proof (cases "finditer (marks_re u (set v)) ?line")
    case Nil
    with assms have "chunks = map unescape [?line]" "mks = []"
      by (auto simp: preserve_line_def escape_eq punct_def)
    then show ?thesis by (intro exI[of _ "[?line]"]) simp
  next
    case (Cons m0 others)
    show ?thesis
    proof (cases "others = [] \<and> m_group m0 = ?line")
      case True
      with assms Cons have "chunks = map unescape []"
        "mks = [\<lparr>index = num, mark = ?line, position = PosA\<rparr>]"
        by (auto simp: preserve_line_def escape_eq punct_def)
      then show ?thesis by (intro exI[of _ "[]"]) simp
    next
      case False
      let ?mks = "map (\<lambda>m. \<lparr>index = num, mark = m_group m,
                     position = classify m0 (last (m0 # others)) ?line m\<rparr>) (m0 # others)"
      have "map mark ?mks = map m_group (finditer (marks_re u (set v)) ?line)"
        by (simp add: Cons comp_def)
      then have hm: "map mark ?mks = hits ?toks" by (simp add: finditer_def hits_matches_from)
      have sm: "split_marks ?mks [] ?line = Inr ([] @ butlast (gaps ?toks), last (gaps ?toks))"
        by (rule split_marks_scan[OF hm])
      with assms Cons False
      have "chunks = map unescape (butlast (gaps ?toks) @ [last (gaps ?toks)])" "mks = ?mks"
        by (auto simp: preserve_line_def escape_eq punct_def Let_def simp del: split_marks.simps)
      moreover have "weave (butlast (gaps ?toks) @ [last (gaps ?toks)]) (map mark ?mks) = ?line"
        unfolding hm using gaps_split[of ?toks] by (simp add: scan_marks_text)
      ultimately show ?thesis
        by (intro exI[of _ "butlast (gaps ?toks) @ [last (gaps ?toks)]"]) simp
    qed
  qed
qed


lemma unescape_weave: "unescape (weave ps gs) = weave (map unescape ps) (map unescape gs)"
  by (induction ps gs rule: weave.induct) (simp_all add: unescape_eq map_concat)

lemma unescape_id: "167 \<notin> set g \<Longrightarrow> 35 \<notin> set g \<Longrightarrow> unescape g = g"
  by (induction g) (auto simp: unescape_eq)

text \<open>
  The pieces that \<open>between\<close> cuts out of a line at the matches of a scan are the gaps of
  the scan, so the chunks of \<open>_preserve_line\<close> are these pieces, one after the other.
\<close>

lemma matches_from_first: "matches_from pos toks = m # rest \<Longrightarrow> pos \<le> m_start m"
  using matches_from_span[of m pos toks] by simp

lemma between_Suc:
  assumes "pos < length line" "\<forall>m rest. mts = m # rest \<longrightarrow> Suc pos \<le> m_start m"
  shows "between pos mts line =
    (case between (Suc pos) mts line of [] \<Rightarrow> [] | p # ps \<Rightarrow> (line ! pos # p) # ps)"
proof (cases mts)
  case Nil
  with assms(1) show ?thesis by (simp add: Cons_nth_drop_Suc)
next
  case (Cons m rest)
  with assms(2) have "Suc pos \<le> m_start m" by simp
  then have k: "m_start m - pos = Suc (m_start m - Suc pos)" by arith
  have "drop pos line = line ! pos # drop (Suc pos) line"
    using assms(1) by (simp add: Cons_nth_drop_Suc)
  then have "take (m_start m - pos) (drop pos line) =
      line ! pos # take (m_start m - Suc pos) (drop (Suc pos) line)"
    by (simp only: k take_Suc_Cons)
  with Cons show ?thesis by simp
qed

lemma between_gaps:
  "between (length pre) (matches_from (length pre) toks) (pre @ concat (map tok_text toks)) =
     gaps toks"
proof (induction toks arbitrary: pre rule: gaps.induct)
  case 1
  show ?case by simp
next
  case (2 c ts)
  let ?line = "pre @ concat (map tok_text (Skip c # ts))"
  have ih: "between (Suc (length pre)) (matches_from (Suc (length pre)) ts) ?line = gaps ts"
    using 2[of "pre @ [c]"] by simp
  have "between (length pre) (matches_from (Suc (length pre)) ts) ?line =
      (case between (Suc (length pre)) (matches_from (Suc (length pre)) ts) ?line of
         [] \<Rightarrow> [] | p # ps \<Rightarrow> (?line ! length pre # p) # ps)"
    by (rule between_Suc) (auto dest: matches_from_first)
  with ih gaps_ne[of ts] show ?case by (auto split: list.splits)
next
  case (3 g ts)
  from 3[of "pre @ g"] show ?case by simp
qed

lemma between_finditer:
  "between 0 (finditer (marks_re u M) line) line = gaps (scan (marks_re u M) False line)"
  using between_gaps[of "[]" "scan (marks_re u M) False line"]
  by (simp add: finditer_def scan_marks_text)

lemma preserve_line_between:
  assumes "preserve_line u (punct u v) line0 num = Inr (chunks, mks)"
  shows "chunks =
    (if \<exists>m. finditer (marks_re u (set v)) (protected u 46 35 (protected u 44 167 line0)) = [m] \<and>
             m_group m = protected u 46 35 (protected u 44 167 line0)
     then []
     else map unescape
            (between 0
               (finditer (marks_re u (set v)) (protected u 46 35 (protected u 44 167 line0)))
               (protected u 46 35 (protected u 44 167 line0))))"
proof -
  let ?line = "protected u 46 35 (protected u 44 167 line0)"
  let ?toks = "scan (marks_re u (set v)) False ?line"
  show ?thesis
  proof (cases "finditer (marks_re u (set v)) ?line")
    case Nil
    with assms have "chunks = [unescape ?line]"
      by (auto simp: preserve_line_def escape_eq punct_def)
    with Nil show ?thesis by simp
  next
    case (Cons m0 others)
    show ?thesis
    proof (cases "others = [] \<and> m_group m0 = ?line")
      case True
      with assms Cons have "chunks = []"
        by (auto simp: preserve_line_def escape_eq punct_def)
      with True Cons show ?thesis by simp
    next
      case False
      let ?mks = "map (\<lambda>m. \<lparr>index = num, mark = m_group m,
                     position = classify m0 (last (m0 # others)) ?line m\<rparr>) (m0 # others)"
      have "map mark ?mks = map m_group (finditer (marks_re u (set v)) ?line)"
        by (simp add: Cons comp_def)
      then have hm: "map mark ?mks = hits ?toks" by (simp add: finditer_def hits_matches_from)
      have sm: "split_marks ?mks [] ?line = Inr ([] @ butlast (gaps ?toks), last (gaps ?toks))"
        by (rule split_marks_scan[OF hm])
      with assms Cons False
      have "chunks = map unescape (butlast (gaps ?toks) @ [last (gaps ?toks)])"
        by (auto simp: preserve_line_def escape_eq punct_def Let_def simp del: split_marks.simps)
      then have "chunks = map unescape (gaps ?toks)" using gaps_ne[of ?toks] by simp
      then have "chunks = map unescape (between 0 (finditer (marks_re u (set v)) ?line) ?line)"
        by (simp only: between_finditer)
      moreover have "\<not> (\<exists>m. finditer (marks_re u (set v)) ?line = [m] \<and> m_group m = ?line)"
        using False Cons by auto
      ultimately show ?thesis by (simp only: if_False)
    qed
  qed
qed

text \<open>
  C5, as the code has it. The digit protection is the function \<open>protected\<close>, for the
  comma and then for the full stop: in one pass from left to right, a comma between
  two decimal digits becomes U+00A7 and the pass goes on after the second digit; a
  second pass does the same with the full stop and U+0023. It changes the line in no
  other way. When neither placeholder is a mark
  or a whitespace character, no place of the protected line that holds a placeholder
  lies inside a match of the mark pattern, and no mark record holds a placeholder: a
  separator that the protection replaced is never part of a mark. The mark records
  hold the texts of the matches, in their order. Every chunk is returned with the
  substitution reversed: unless the protected line is one match and nothing else (then
  there is no chunk), the chunks are exactly the pieces of the protected line before
  the first match, between each match and the next, and after the last match, in this
  order and each of them once, each with U+00A7 turned back into a comma and U+0023
  into a full stop, so no chunk holds a placeholder; and when the input line holds no
  placeholder of its own, the chunks and the mark texts, taken in turn, make up the
  input line again. For
  "3,14 is pi." with the default marks the protected line is "3" U+00A7 "14 is pi.", the only
  match is the final ".", and \<open>preserve\<close> returns the chunk "3,14 is pi" and that mark with
  position E.
\<close>

theorem digit_protection:
  "(set_marks u x = Inr self \<and> 167 \<notin> p_marks self \<and> 35 \<notin> p_marks self \<and>
    \<not> isspace u 167 \<and> \<not> isspace u 35 \<longrightarrow>
      (\<exists>line chunks mks.
         escape u line0 = Inr line \<and> preserve_line u self line0 num = Inr (chunks, mks) \<and>
         line = protected u 46 35 (protected u 44 167 line0) \<and>
         list_all2 (\<lambda>a b. a = b \<or> (a = 167 \<and> b = 44) \<or> (a = 35 \<and> b = 46)) line line0 \<and>
         (\<forall>m\<in>set (finditer (p_marks_re self) line).
            \<forall>i. m_start m \<le> i \<and> i < m_start m + length (m_group m) \<longrightarrow>
                line ! i \<noteq> 167 \<and> line ! i \<noteq> 35) \<and>
         (\<forall>mk\<in>set mks. 167 \<notin> set (mark mk) \<and> 35 \<notin> set (mark mk)) \<and>
         (\<forall>c\<in>set chunks. 167 \<notin> set c \<and> 35 \<notin> set c) \<and>
         (\<exists>raw. chunks = map unescape raw \<and> weave raw (map mark mks) = line) \<and>
         map mark mks = map m_group (finditer (p_marks_re self) line) \<and>
         chunks =
           (if \<exists>m. finditer (p_marks_re self) line = [m] \<and> m_group m = line then []
            else map unescape (between 0 (finditer (p_marks_re self) line) line)) \<and>
         (167 \<notin> set line0 \<and> 35 \<notin> set line0 \<longrightarrow> weave chunks (map mark mks) = line0))) \<and>
   escape py_tables (ustr ''3,14 is pi.'') =
     Inr [51, 167, 49, 52, 32, 105, 115, 32, 112, 105, 46] \<and>
   finditer (p_marks_re (punct py_tables default_marks))
     [51, 167, 49, 52, 32, 105, 115, 32, 112, 105, 46] = [\<lparr>m_start = 10, m_group = ustr ''.''\<rparr>] \<and>
   preserve py_tables (punct py_tables default_marks) (Lines [ustr ''3,14 is pi.'']) =
     Inr ([ustr ''3,14 is pi''], [\<lparr>index = 0, mark = ustr ''.'', position = PosE\<rparr>])"
proof -
  have "\<exists>line chunks mks.
         escape u line0 = Inr line \<and> preserve_line u self line0 num = Inr (chunks, mks) \<and>
         line = protected u 46 35 (protected u 44 167 line0) \<and>
         list_all2 (\<lambda>a b. a = b \<or> (a = 167 \<and> b = 44) \<or> (a = 35 \<and> b = 46)) line line0 \<and>
         (\<forall>m\<in>set (finditer (p_marks_re self) line).
            \<forall>i. m_start m \<le> i \<and> i < m_start m + length (m_group m) \<longrightarrow>
                line ! i \<noteq> 167 \<and> line ! i \<noteq> 35) \<and>
         (\<forall>mk\<in>set mks. 167 \<notin> set (mark mk) \<and> 35 \<notin> set (mark mk)) \<and>
         (\<forall>c\<in>set chunks. 167 \<notin> set c \<and> 35 \<notin> set c) \<and>
         (\<exists>raw. chunks = map unescape raw \<and> weave raw (map mark mks) = line) \<and>
         map mark mks = map m_group (finditer (p_marks_re self) line) \<and>
         chunks =
           (if \<exists>m. finditer (p_marks_re self) line = [m] \<and> m_group m = line then []
            else map unescape (between 0 (finditer (p_marks_re self) line) line)) \<and>
         (167 \<notin> set line0 \<and> 35 \<notin> set line0 \<longrightarrow> weave chunks (map mark mks) = line0)"
    if h: "set_marks u x = Inr self" "167 \<notin> p_marks self" "35 \<notin> p_marks self"
      "\<not> isspace u 167" "\<not> isspace u 35"
  proof -
    from h(1) obtain v where v: "self = punct u v" by (auto simp: set_marks_Inr_iff)
    let ?line = "protected u 46 35 (protected u 44 167 line0)"
    have nw: "\<not> wm u (set v) 167" "\<not> wm u (set v) 35"
      using h(2-5) v by (auto simp: wm_def punct_def)
    obtain chunks mks where pl: "preserve_line u self line0 num = Inr (chunks, mks)"
      using preserve_line_total v by blast
    have 1: "escape u line0 = Inr ?line" by (rule escape_eq)
    have 2: "list_all2 (\<lambda>a b. a = b \<or> (a = 167 \<and> b = 44) \<or> (a = 35 \<and> b = 46)) ?line line0"
      by (rule escape_rel)
    have 3: "?line ! i \<noteq> 167 \<and> ?line ! i \<noteq> 35"
      if "m \<in> set (finditer (p_marks_re self) ?line)"
        "m_start m \<le> i \<and> i < m_start m + length (m_group m)" for m i
      using finditer_marks_nth[of m u "set v" ?line i] that nw v by (auto simp: punct_def)
    have 4: "167 \<notin> set (mark mk) \<and> 35 \<notin> set (mark mk)" if "mk \<in> set mks" for mk
    proof -
      from that have "mark mk \<in> set (map mark mks)" by simp
      then obtain m where "m \<in> set (finditer (marks_re u (set v)) ?line)" "mark mk = m_group m"
        using preserve_line_mark_texts[OF pl[unfolded v]] by auto
      with finditer_marks_group[of m u "set v" ?line] nw show ?thesis by auto
    qed
    have 5: "\<forall>c\<in>set chunks. 167 \<notin> set c \<and> 35 \<notin> set c"
      by (rule preserve_line_chunks_unescaped[OF pl])
    from preserve_line_partition[OF pl[unfolded v]] obtain raw where
      raw: "chunks = map unescape raw" "weave raw (map mark mks) = ?line" by blast
    have c6: "\<exists>raw. chunks = map unescape raw \<and> weave raw (map mark mks) = ?line"
      using raw by blast
    have 7: "weave chunks (map mark mks) = line0" if "167 \<notin> set line0 \<and> 35 \<notin> set line0"
    proof -
      have um: "map unescape (map mark mks) = map mark mks"
        using 4 by (simp add: unescape_id)
      have "unescape ?line = unescape (weave raw (map mark mks))" by (simp only: raw(2))
      also have "\<dots> = weave (map unescape raw) (map unescape (map mark mks))"
        by (rule unescape_weave)
      also have "\<dots> = weave chunks (map mark mks)" by (simp only: um raw(1))
      finally have "weave chunks (map mark mks) = unescape ?line" by simp
      also have "\<dots> = line0" using that by (simp add: unescape_protected)
      finally show ?thesis .
    qed
    have c3: "\<forall>m\<in>set (finditer (p_marks_re self) ?line).
            \<forall>i. m_start m \<le> i \<and> i < m_start m + length (m_group m) \<longrightarrow>
                ?line ! i \<noteq> 167 \<and> ?line ! i \<noteq> 35"
      using 3 by blast
    have c4: "\<forall>mk\<in>set mks. 167 \<notin> set (mark mk) \<and> 35 \<notin> set (mark mk)"
      using 4 by blast
    have c7: "167 \<notin> set line0 \<and> 35 \<notin> set line0 \<longrightarrow> weave chunks (map mark mks) = line0"
      using 7 by blast
    have re: "p_marks_re self = marks_re u (set v)" by (simp add: v punct_def)
    have c8: "map mark mks = map m_group (finditer (p_marks_re self) ?line)"
      unfolding re by (rule preserve_line_mark_texts[OF pl[unfolded v]])
    have c9: "chunks =
        (if \<exists>m. finditer (p_marks_re self) ?line = [m] \<and> m_group m = ?line then []
         else map unescape (between 0 (finditer (p_marks_re self) ?line) ?line))"
      unfolding re by (rule preserve_line_between[OF pl[unfolded v]])
    show ?thesis
      using pl 1 2 c3 c4 5 c6 c8 c9 c7 by blast
  qed
  with finditer_example_pi preserve_example_pi show ?thesis by blast
qed

text \<open>
  The claim as the spec states it fails: a mark other than the comma and the full stop
  is not protected (the ";" of "1;2" is a mark of position I), and the placeholder
  U+0023 collides with the text of a line (the chunk of "a#b" is "a.b").
\<close>

theorem digit_protection_counterexample:
  "preserve py_tables (punct py_tables default_marks) (Lines [ustr ''1;2'']) =
     Inr ([ustr ''1'', ustr ''2''], [\<lparr>index = 0, mark = ustr '';'', position = PosI\<rparr>]) \<and>
   preserve py_tables (punct py_tables default_marks) (Lines [ustr ''a#b'']) =
     Inr ([ustr ''a.b''], [])"
  by (simp add: eval_simps)


theorem digit_protection_witness:
  "set_marks py_tables (PyStr default_marks) = Inr (punct py_tables default_marks) \<and>
   167 \<notin> p_marks (punct py_tables default_marks) \<and>
   35 \<notin> p_marks (punct py_tables default_marks) \<and>
   \<not> isspace py_tables 167 \<and> \<not> isspace py_tables 35 \<and>
   (\<exists>line chunks mks.
      escape py_tables (ustr ''3,14 is pi.'') = Inr line \<and>
      preserve_line py_tables (punct py_tables default_marks) (ustr ''3,14 is pi.'') 0 =
        Inr (chunks, mks) \<and>
      line = protected py_tables 46 35 (protected py_tables 44 167 (ustr ''3,14 is pi.'')) \<and>
      list_all2 (\<lambda>a b. a = b \<or> (a = 167 \<and> b = 44) \<or> (a = 35 \<and> b = 46)) line
        (ustr ''3,14 is pi.'') \<and>
      (\<forall>m\<in>set (finditer (p_marks_re (punct py_tables default_marks)) line).
         \<forall>i. m_start m \<le> i \<and> i < m_start m + length (m_group m) \<longrightarrow>
             line ! i \<noteq> 167 \<and> line ! i \<noteq> 35) \<and>
      (\<forall>mk\<in>set mks. 167 \<notin> set (mark mk) \<and> 35 \<notin> set (mark mk)) \<and>
      (\<forall>c\<in>set chunks. 167 \<notin> set c \<and> 35 \<notin> set c) \<and>
      (\<exists>raw. chunks = map unescape raw \<and> weave raw (map mark mks) = line) \<and>
      map mark mks = map m_group (finditer (p_marks_re (punct py_tables default_marks)) line) \<and>
      chunks =
        (if \<exists>m. finditer (p_marks_re (punct py_tables default_marks)) line = [m] \<and>
                 m_group m = line then []
         else map unescape
                (between 0 (finditer (p_marks_re (punct py_tables default_marks)) line) line)) \<and>
      (167 \<notin> set (ustr ''3,14 is pi.'') \<and> 35 \<notin> set (ustr ''3,14 is pi.'') \<longrightarrow>
         weave chunks (map mark mks) = ustr ''3,14 is pi.''))"
proof -
  have h: "set_marks py_tables (PyStr default_marks) = Inr (punct py_tables default_marks) \<and>
   167 \<notin> p_marks (punct py_tables default_marks) \<and>
   35 \<notin> p_marks (punct py_tables default_marks) \<and>
   \<not> isspace py_tables 167 \<and> \<not> isspace py_tables 35"
    by (simp add: set_marks_PyStr punct_def default_marks_def py_tables_def py_isspace_def)
  from digit_protection
    [of py_tables "PyStr default_marks" "punct py_tables default_marks" "ustr ''3,14 is pi.''" 0] h
  show ?thesis by blast
qed

end
